theory Spec2Isabelle
  imports Complex_Main "HOL-Library.AList"
begin

section \<open>Embedding of \<^verbatim>\<open>src/spellingfixer.py\<close>\<close>

text \<open>
  The core of the spelling fixer is embedded function by function: the trainer
  (\<^verbatim>\<open>compute_emissions\<close>, \<^verbatim>\<open>compute_transitions\<close>), the decoder (\<^verbatim>\<open>viterbi\<close>) and the
  snapper (\<^verbatim>\<open>closest_known_word\<close>). Every function that can raise in Python returns
  \<open>error + 'a\<close>, with \<open>Inl\<close> the exception; every \<^verbatim>\<open>for\<close> loop is a recursive function
  over the list it iterates, carrying the variables the loop body assigns.

  A finite Python \<^verbatim>\<open>float\<close> is the real number it denotes, and \<^verbatim>\<open>float("-inf")\<close> is the
  extra score \<open>NegInf\<close>. In the decoder the two rounding operations on floats,
  \<^verbatim>\<open>math.log\<close> and \<^verbatim>\<open>+\<close>, are parameters of the model (\<open>float_ops\<close>): nothing is assumed
  about how they round, so what is proved of the decoder holds for every rounding, the
  one of the IEEE doubles included. In the trainer the division of two counts is the
  exact quotient. A one-character Python string is a \<open>char\<close>.
\<close>

subsection \<open>Exceptions and indexing\<close>

datatype error = IndexError | KeyError | ValueError | ZeroDivisionError

text \<open>\<^verbatim>\<open>s[i]\<close> for a non-negative index: \<^verbatim>\<open>IndexError\<close> out of range.\<close>

definition getitem :: "'a list \<Rightarrow> nat \<Rightarrow> error + 'a" where
  "getitem s i = (if i < length s then Inr (s ! i) else Inl IndexError)"

subsection \<open>The trainer: \<^verbatim>\<open>compute_emissions\<close> and \<^verbatim>\<open>compute_transitions\<close> (lines 25-96)\<close>

text \<open>
  A Python dictionary keeps its keys in insertion order and the trainer iterates over
  them, so the nested dictionaries are association lists: \<open>map_of\<close> is the lookup, and
  \<open>AList.update\<close> replaces the value of a key in place or appends a new key at the end,
  as an assignment \<^verbatim>\<open>d[k] = v\<close> does. Counts are Python integers.
\<close>

type_synonym count_dict = "(char \<times> (char \<times> int) list) list"

type_synonym prob_dict = "(char \<times> (char \<times> real) list) list"

text \<open>
  Lines 46-50 (and the same statements at lines 81-85):
  \<^verbatim>\<open>if a not in d: d[a] = {}\<close>, \<^verbatim>\<open>if b not in d[a]: d[a][b] = 0\<close>, \<^verbatim>\<open>d[a][b] += 1\<close>.
  A subscript with a missing key is a \<^verbatim>\<open>KeyError\<close>.
\<close>

definition count_pair :: "count_dict \<Rightarrow> char \<Rightarrow> char \<Rightarrow> error + count_dict" where
  "count_pair d a b =
     (let d1 = (if map_of d a = None then AList.update a [] d else d) in
      case map_of d1 a of
        None \<Rightarrow> Inl KeyError
      | Some row \<Rightarrow>
     (let row1 = (if map_of row b = None then AList.update b 0 row else row) in
      case map_of row1 b of
        None \<Rightarrow> Inl KeyError
      | Some n \<Rightarrow> Inr (AList.update a (AList.update b (n + 1) row1) d1)))"

text \<open>Lines 42-50: \<^verbatim>\<open>for i in range(length)\<close>, carrying \<^verbatim>\<open>emissions\<close>.\<close>

fun emission_loop :: "string \<Rightarrow> string \<Rightarrow> nat list \<Rightarrow> count_dict \<Rightarrow> error + count_dict" where
  "emission_loop correct typed [] emissions = Inr emissions"
| "emission_loop correct typed (i # idxs) emissions =
     (case getitem correct i of
        Inl e \<Rightarrow> Inl e
      | Inr c_char \<Rightarrow>
     (case getitem typed i of
        Inl e \<Rightarrow> Inl e
      | Inr t_char \<Rightarrow>
     (case count_pair emissions c_char t_char of
        Inl e \<Rightarrow> Inl e
      | Inr emissions' \<Rightarrow> emission_loop correct typed idxs emissions')))"

text \<open>Lines 37-50: \<^verbatim>\<open>for correct, typed in pairs\<close>; \<^verbatim>\<open>length\<close> is the shorter of the two lengths.\<close>

fun emission_pairs_loop :: "(string \<times> string) list \<Rightarrow> count_dict \<Rightarrow> error + count_dict" where
  "emission_pairs_loop [] emissions = Inr emissions"
| "emission_pairs_loop ((correct, typed) # pairs) emissions =
     (let len = length correct;
          len = (if length typed < len then length typed else len)
      in case emission_loop correct typed [0..<len] emissions of
           Inl e \<Rightarrow> Inl e
         | Inr emissions' \<Rightarrow> emission_pairs_loop pairs emissions')"

text \<open>
  Lines 54-56 (and 89-91): \<^verbatim>\<open>for t_char in row: total += row[t_char]\<close>, over the keys of
  the row; \<open>tot\<close> is the source's \<^verbatim>\<open>total\<close>.
\<close>

fun row_total :: "(char \<times> int) list \<Rightarrow> char list \<Rightarrow> int \<Rightarrow> error + int" where
  "row_total row [] tot = Inr tot"
| "row_total row (t_char # keys) tot =
     (case map_of row t_char of
        None \<Rightarrow> Inl KeyError
      | Some n \<Rightarrow> row_total row keys (tot + n))"

text \<open>
  Lines 58-59 (and 93-94): \<^verbatim>\<open>for t_char in row: probs[t_char] = row[t_char] / total\<close>. The
  true division of two integers raises \<^verbatim>\<open>ZeroDivisionError\<close> on a zero divisor.
\<close>

fun normalize_row ::
  "(char \<times> int) list \<Rightarrow> int \<Rightarrow> char list \<Rightarrow> (char \<times> real) list \<Rightarrow> error + (char \<times> real) list" where
  "normalize_row row tot [] probs = Inr probs"
| "normalize_row row tot (t_char # keys) probs =
     (case map_of row t_char of
        None \<Rightarrow> Inl KeyError
      | Some n \<Rightarrow>
          if tot = 0 then Inl ZeroDivisionError
          else normalize_row row tot keys
                 (AList.update t_char (real_of_int n / real_of_int tot) probs))"

text \<open>
  Lines 52-59 (and 87-94): \<^verbatim>\<open>for c_char in emissions\<close>, over the keys of the counts,
  carrying \<^verbatim>\<open>emission_probs\<close>. The row \<^verbatim>\<open>emissions[c_char]\<close> is looked up once here; the
  source repeats the same lookup in both inner loops.
\<close>

fun normalize_rows :: "count_dict \<Rightarrow> char list \<Rightarrow> prob_dict \<Rightarrow> error + prob_dict" where
  "normalize_rows counts [] probs = Inr probs"
| "normalize_rows counts (c_char # keys) probs =
     (case map_of counts c_char of
        None \<Rightarrow> Inl KeyError
      | Some row \<Rightarrow>
     (case row_total row (map fst row) 0 of
        Inl e \<Rightarrow> Inl e
      | Inr tot \<Rightarrow>
     (case normalize_row row tot (map fst row) [] of
        Inl e \<Rightarrow> Inl e
      | Inr row_probs \<Rightarrow> normalize_rows counts keys (AList.update c_char row_probs probs))))"

text \<open>Lines 25-61.\<close>

definition compute_emissions :: "(string \<times> string) list \<Rightarrow> error + prob_dict" where
  "compute_emissions pairs =
     (case emission_pairs_loop pairs [] of
        Inl e \<Rightarrow> Inl e
      | Inr emissions \<Rightarrow> normalize_rows emissions (map fst emissions) [])"

text \<open>Lines 77-85: \<^verbatim>\<open>for i in range(len(word) - 1)\<close>, carrying \<^verbatim>\<open>transitions\<close>.\<close>

fun transition_loop :: "string \<Rightarrow> nat list \<Rightarrow> count_dict \<Rightarrow> error + count_dict" where
  "transition_loop word [] transitions = Inr transitions"
| "transition_loop word (i # idxs) transitions =
     (case getitem word i of
        Inl e \<Rightarrow> Inl e
      | Inr a \<Rightarrow>
     (case getitem word (i + 1) of
        Inl e \<Rightarrow> Inl e
      | Inr b \<Rightarrow>
     (case count_pair transitions a b of
        Inl e \<Rightarrow> Inl e
      | Inr transitions' \<Rightarrow> transition_loop word idxs transitions')))"

text \<open>Lines 75-85: \<^verbatim>\<open>for correct, _ in pairs\<close>, with \<^verbatim>\<open>word = "^" + correct + "$"\<close>.\<close>

fun transition_pairs_loop :: "(string \<times> string) list \<Rightarrow> count_dict \<Rightarrow> error + count_dict" where
  "transition_pairs_loop [] transitions = Inr transitions"
| "transition_pairs_loop ((correct, typed) # pairs) transitions =
     (let word = ''^'' @ correct @ ''$''
      in case transition_loop word [0..<length word - 1] transitions of
           Inl e \<Rightarrow> Inl e
         | Inr transitions' \<Rightarrow> transition_pairs_loop pairs transitions')"

text \<open>Lines 63-96.\<close>

definition compute_transitions :: "(string \<times> string) list \<Rightarrow> error + prob_dict" where
  "compute_transitions pairs =
     (case transition_pairs_loop pairs [] of
        Inl e \<Rightarrow> Inl e
      | Inr transitions \<Rightarrow> normalize_rows transitions (map fst transitions) [])"

text \<open>
  The dictionary that an association list stands for, as the decoder reads the
  trainer's result.
\<close>

definition table_of :: "prob_dict \<Rightarrow> char \<rightharpoonup> (char \<rightharpoonup> real)" where
  "table_of d = (\<lambda>a. map_option map_of (map_of d a))"

subsection \<open>The decoder: \<^verbatim>\<open>viterbi\<close> (lines 99-156)\<close>

text \<open>
  A probability table is a dictionary of dictionaries of floats; only one-character keys
  are ever looked up. A score is a float that may be \<^verbatim>\<open>float("-inf")\<close>.
\<close>

type_synonym table = "char \<rightharpoonup> (char \<rightharpoonup> real)"

datatype score = NegInf | Fin real

type_synonym trellis = "(char \<rightharpoonup> score) list"

type_synonym paths = "char \<rightharpoonup> string"

text \<open>
  The floating-point operations of the decoder. \<open>fl_log fl x\<close> is the float that
  \<^verbatim>\<open>math.log(x)\<close> returns for a positive \<open>x\<close>, and \<open>fl_add fl x y\<close> the float that \<^verbatim>\<open>x + y\<close>
  returns for finite \<open>x\<close> and \<open>y\<close>: the exact result rounded to a double, in particular
  \<open>fl_add\<close> need not be associative. Both results are finite: the logarithm of a
  positive double lies between \<open>-746\<close> and \<open>710\<close>, so a sum of them overflows only for
  a word of more than \<open>10^300\<close> letters. Floats are compared as the reals they denote.
\<close>

record float_ops =
  fl_log :: "real \<Rightarrow> real"
  fl_add :: "real \<Rightarrow> real \<Rightarrow> real"

text \<open>\<^verbatim>\<open>x + y\<close> for a score \<open>x\<close> and a finite \<open>y\<close>, and \<^verbatim>\<open>x > y\<close> on scores.\<close>

fun score_add :: "float_ops \<Rightarrow> score \<Rightarrow> real \<Rightarrow> score" where
  "score_add fl NegInf y = NegInf"
| "score_add fl (Fin x) y = Fin (fl_add fl x y)"

fun score_gt :: "score \<Rightarrow> score \<Rightarrow> bool" where
  "score_gt (Fin x) (Fin y) = (x > y)"
| "score_gt (Fin x) NegInf = True"
| "score_gt NegInf y = False"

text \<open>\<^verbatim>\<open>math.log(x)\<close>: a \<^verbatim>\<open>ValueError\<close> (math domain error) unless \<open>x\<close> is positive.\<close>

definition math_log :: "float_ops \<Rightarrow> real \<Rightarrow> error + real" where
  "math_log fl x = (if x \<le> 0 then Inl ValueError else Inr (fl_log fl x))"

text \<open>The operations without any rounding: one instance, used in the examples.\<close>

definition exact_ops :: float_ops where
  "exact_ops = \<lparr>fl_log = ln, fl_add = (+)\<rparr>"

text \<open>\<^verbatim>\<open>list(string.ascii_lowercase)\<close>.\<close>

definition letters :: "char list" where
  "letters = ''abcdefghijklmnopqrstuvwxyz''"

text \<open>\<^verbatim>\<open>probs.get(a, {}).get(b, 1e-6)\<close>.\<close>

definition get_prob :: "table \<Rightarrow> char \<Rightarrow> char \<Rightarrow> real" where
  "get_prob probs a b =
     (case probs a of
        None \<Rightarrow> 1 / 1000000
      | Some row \<Rightarrow> (case row b of None \<Rightarrow> 1 / 1000000 | Some p \<Rightarrow> p))"

text \<open>\<^verbatim>\<open>d.get(s, float("-inf"))\<close> on a column of the trellis.\<close>

definition get_score :: "(char \<rightharpoonup> score) \<Rightarrow> char \<Rightarrow> score" where
  "get_score d s = (case d s of None \<Rightarrow> NegInf | Some v \<Rightarrow> v)"

text \<open>
  Lines 115-119: the first column. The state is \<^verbatim>\<open>V\<close> and \<^verbatim>\<open>path\<close>; \<^verbatim>\<open>typed[0]\<close> is
  evaluated in every iteration, before either logarithm.
\<close>

fun init_loop ::
  "float_ops \<Rightarrow> string \<Rightarrow> table \<Rightarrow> table \<Rightarrow> char list \<Rightarrow> trellis \<times> paths \<Rightarrow> error + trellis \<times> paths" where
  "init_loop fl typed transition_probs emission_probs [] (V, path) = Inr (V, path)"
| "init_loop fl typed transition_probs emission_probs (s # ss) (V, path) =
     (let trans_prob = get_prob transition_probs (CHR ''^'') s in
      case getitem typed 0 of
        Inl e \<Rightarrow> Inl e
      | Inr o0 \<Rightarrow>
     (let emit_prob = get_prob emission_probs s o0 in
      case math_log fl trans_prob of
        Inl e \<Rightarrow> Inl e
      | Inr log_trans \<Rightarrow>
     (case math_log fl emit_prob of
        Inl e \<Rightarrow> Inl e
      | Inr log_emit \<Rightarrow>
     (case getitem V 0 of
        Inl e \<Rightarrow> Inl e
      | Inr V0 \<Rightarrow>
          init_loop fl typed transition_probs emission_probs ss
            (V[0 := V0(s \<mapsto> Fin (fl_add fl log_trans log_emit))], path(s \<mapsto> [s]))))))"

text \<open>
  Lines 128-136: the loop over the previous letter \<^verbatim>\<open>s0\<close>, carrying \<^verbatim>\<open>max_prob\<close> and
  \<^verbatim>\<open>prev_state\<close> (\<^verbatim>\<open>None\<close> until the first strict improvement).
\<close>

fun prev_loop ::
  "float_ops \<Rightarrow> trellis \<Rightarrow> string \<Rightarrow> table \<Rightarrow> table \<Rightarrow> nat \<Rightarrow> char \<Rightarrow> char list
     \<Rightarrow> score \<times> char option \<Rightarrow> error + score \<times> char option" where
  "prev_loop fl V typed transition_probs emission_probs t s [] (max_prob, prev_state) =
     Inr (max_prob, prev_state)"
| "prev_loop fl V typed transition_probs emission_probs t s (s0 # rest) (max_prob, prev_state) =
     (case getitem V (t - 1) of
        Inl e \<Rightarrow> Inl e
      | Inr Vprev \<Rightarrow>
     (let prev_prob = get_score Vprev s0;
          trans_prob = get_prob transition_probs s0 s in
      case getitem typed t of
        Inl e \<Rightarrow> Inl e
      | Inr ot \<Rightarrow>
     (let emit_prob = get_prob emission_probs s ot in
      case math_log fl trans_prob of
        Inl e \<Rightarrow> Inl e
      | Inr log_trans \<Rightarrow>
     (case math_log fl emit_prob of
        Inl e \<Rightarrow> Inl e
      | Inr log_emit \<Rightarrow>
     (let prob = score_add fl (score_add fl prev_prob log_trans) log_emit in
      if score_gt prob max_prob
      then prev_loop fl V typed transition_probs emission_probs t s rest (prob, Some s0)
      else prev_loop fl V typed transition_probs emission_probs t s rest (max_prob, prev_state))))))"

text \<open>
  Lines 124-140: the loop over the letter \<^verbatim>\<open>s\<close> at position \<^verbatim>\<open>t\<close>, carrying \<^verbatim>\<open>V\<close> and
  \<^verbatim>\<open>newpath\<close>; \<^verbatim>\<open>path[prev_state]\<close> is a \<^verbatim>\<open>KeyError\<close> when the key is missing.
\<close>

fun state_loop ::
  "float_ops \<Rightarrow> string \<Rightarrow> table \<Rightarrow> table \<Rightarrow> nat \<Rightarrow> paths \<Rightarrow> char list
     \<Rightarrow> trellis \<times> paths \<Rightarrow> error + trellis \<times> paths" where
  "state_loop fl typed transition_probs emission_probs t path [] (V, newpath) = Inr (V, newpath)"
| "state_loop fl typed transition_probs emission_probs t path (s # ss) (V, newpath) =
     (case prev_loop fl V typed transition_probs emission_probs t s letters (NegInf, None) of
        Inl e \<Rightarrow> Inl e
      | Inr (max_prob, prev_state) \<Rightarrow>
     (case getitem V t of
        Inl e \<Rightarrow> Inl e
      | Inr Vt \<Rightarrow>
     (let V' = V[t := Vt(s \<mapsto> max_prob)] in
      case prev_state of
        None \<Rightarrow> state_loop fl typed transition_probs emission_probs t path ss (V', newpath)
      | Some p \<Rightarrow>
          (case path p of
             None \<Rightarrow> Inl KeyError
           | Some best_prev \<Rightarrow>
               state_loop fl typed transition_probs emission_probs t path ss
                 (V', newpath(s \<mapsto> best_prev @ [s]))))))"

text \<open>Lines 121-142: the loop over the positions \<^verbatim>\<open>range(1, len(typed))\<close>.\<close>

fun time_loop ::
  "float_ops \<Rightarrow> string \<Rightarrow> table \<Rightarrow> table \<Rightarrow> nat list \<Rightarrow> trellis \<times> paths \<Rightarrow> error + trellis \<times> paths" where
  "time_loop fl typed transition_probs emission_probs [] (V, path) = Inr (V, path)"
| "time_loop fl typed transition_probs emission_probs (t # ts) (V, path) =
     (case state_loop fl typed transition_probs emission_probs t path letters
             (V @ [Map.empty], Map.empty) of
        Inl e \<Rightarrow> Inl e
      | Inr (V', newpath) \<Rightarrow> time_loop fl typed transition_probs emission_probs ts (V', newpath))"

text \<open>Lines 146-152: the choice of the last letter, carrying \<^verbatim>\<open>max_prob\<close> and \<^verbatim>\<open>best_state\<close>.\<close>

fun final_loop ::
  "float_ops \<Rightarrow> trellis \<Rightarrow> string \<Rightarrow> table \<Rightarrow> char list \<Rightarrow> score \<times> char option
     \<Rightarrow> error + score \<times> char option" where
  "final_loop fl V typed transition_probs [] (max_prob, best_state) = Inr (max_prob, best_state)"
| "final_loop fl V typed transition_probs (s # ss) (max_prob, best_state) =
     (case getitem V (length typed - 1) of
        Inl e \<Rightarrow> Inl e
      | Inr Vlast \<Rightarrow>
     (let last_prob = get_score Vlast s in
      case math_log fl (get_prob transition_probs s (CHR ''$'')) of
        Inl e \<Rightarrow> Inl e
      | Inr end_prob \<Rightarrow>
     (let total_prob = score_add fl last_prob end_prob in
      if score_gt total_prob max_prob
      then final_loop fl V typed transition_probs ss (total_prob, Some s)
      else final_loop fl V typed transition_probs ss (max_prob, best_state))))"

text \<open>
  Lines 111-152: everything up to the choice of \<^verbatim>\<open>best_state\<close>. The result is the trellis
  \<^verbatim>\<open>V\<close>, the recorded paths and \<^verbatim>\<open>best_state\<close>.
\<close>

definition viterbi_search ::
  "float_ops \<Rightarrow> string \<Rightarrow> table \<Rightarrow> table \<Rightarrow> error + trellis \<times> paths \<times> char option" where
  "viterbi_search fl typed transition_probs emission_probs =
     (case init_loop fl typed transition_probs emission_probs letters ([Map.empty], Map.empty) of
        Inl e \<Rightarrow> Inl e
      | Inr (V0, path0) \<Rightarrow>
     (case time_loop fl typed transition_probs emission_probs [1..<length typed] (V0, path0) of
        Inl e \<Rightarrow> Inl e
      | Inr (V, path) \<Rightarrow>
     (case final_loop fl V typed transition_probs letters (NegInf, None) of
        Inl e \<Rightarrow> Inl e
      | Inr (max_prob, best_state) \<Rightarrow> Inr (V, path, best_state))))"

text \<open>
  Lines 154-156: \<^verbatim>\<open>typed\<close> itself when no \<^verbatim>\<open>best_state\<close> was chosen, the recorded path of
  \<^verbatim>\<open>best_state\<close> otherwise.
\<close>

definition viterbi :: "float_ops \<Rightarrow> string \<Rightarrow> table \<Rightarrow> table \<Rightarrow> error + string" where
  "viterbi fl typed transition_probs emission_probs =
     (case viterbi_search fl typed transition_probs emission_probs of
        Inl e \<Rightarrow> Inl e
      | Inr (V, path, best_state) \<Rightarrow>
          (case best_state of
             None \<Rightarrow> Inr typed
           | Some b \<Rightarrow> (case path b of None \<Rightarrow> Inl KeyError | Some p \<Rightarrow> Inr p)))"

subsection \<open>The snapper: \<^verbatim>\<open>closest_known_word\<close> (lines 159-185)\<close>

text \<open>
  Lines 179-181: \<^verbatim>\<open>for i in range(m): if word[i] != candidate[i]: dist += 1\<close>. The loop
  variable \<^verbatim>\<open>dist\<close> is the last argument \<open>dst\<close>.
\<close>

fun count_mismatches :: "string \<Rightarrow> string \<Rightarrow> nat list \<Rightarrow> int \<Rightarrow> error + int" where
  "count_mismatches word candidate [] dst = Inr dst"
| "count_mismatches word candidate (i # idxs) dst =
     (case getitem word i of
        Inl e \<Rightarrow> Inl e
      | Inr w \<Rightarrow>
          (case getitem candidate i of
             Inl e \<Rightarrow> Inl e
           | Inr c \<Rightarrow> count_mismatches word candidate idxs (if w \<noteq> c then dst + 1 else dst)))"

text \<open>
  Lines 176-184: the scan of the dictionary, carrying \<^verbatim>\<open>best\<close> and \<^verbatim>\<open>best_score\<close>; the
  pair is replaced only when the distance is strictly smaller.
\<close>

fun scan_words :: "string \<Rightarrow> string list \<Rightarrow> string \<times> int \<Rightarrow> error + string \<times> int" where
  "scan_words candidate [] (best, best_score) = Inr (best, best_score)"
| "scan_words candidate (word # ws) (best, best_score) =
     (let dst = \<bar>int (length word) - int (length candidate)\<bar>;
          m = min (length word) (length candidate)
      in case count_mismatches word candidate [0..<m] dst of
           Inl e \<Rightarrow> Inl e
         | Inr dst \<Rightarrow>
             if dst < best_score then scan_words candidate ws (word, dst)
             else scan_words candidate ws (best, best_score))"

text \<open>Lines 170-185. \<^verbatim>\<open>best = candidate\<close> and \<^verbatim>\<open>best_score = 10**9\<close> start the scan.\<close>

definition closest_known_word :: "string \<Rightarrow> string list \<Rightarrow> error + string" where
  "closest_known_word candidate dictionary_words =
     (if candidate \<in> set dictionary_words then Inr candidate
      else case scan_words candidate dictionary_words (candidate, 10 ^ 9) of
             Inl e \<Rightarrow> Inl e
           | Inr (best, best_score) \<Rightarrow> Inr best)"

section \<open>The specification's definitions\<close>

subsection \<open>The trainer as the specification words it\<close>

text \<open>
  The emission count of \<open>(c, t)\<close>: over all training pairs, the number of positions
  below the shorter length where the correct word has \<open>c\<close> and the typed word has \<open>t\<close>.
\<close>

definition spec_emission_count :: "(string \<times> string) list \<Rightarrow> char \<Rightarrow> char \<Rightarrow> nat" where
  "spec_emission_count pairs c t =
     sum_list (map (\<lambda>(correct, typed).
        length [i \<leftarrow> [0..<min (length correct) (length typed)]. correct ! i = c \<and> typed ! i = t])
       pairs)"

text \<open>The correct word between the start and the end sentinel.\<close>

definition spec_padded :: "string \<Rightarrow> string" where
  "spec_padded word = CHR ''^'' # word @ [CHR ''$'']"

text \<open>
  The transition count of \<open>(a, b)\<close>: over all training pairs, the number of adjacent
  positions of the padded correct word that hold \<open>a\<close> followed by \<open>b\<close>.
\<close>

definition spec_transition_count :: "(string \<times> string) list \<Rightarrow> char \<Rightarrow> char \<Rightarrow> nat" where
  "spec_transition_count pairs a b =
     sum_list (map (\<lambda>(correct, typed).
        length [i \<leftarrow> [0..<length (spec_padded correct) - 1].
                  spec_padded correct ! i = a \<and> spec_padded correct ! Suc i = b])
       pairs)"

text \<open>
  A table of counts divided row by row by the row's total. A row without observations
  is no key of the table, and a pair without observations is no key of its row.
\<close>

definition spec_row_total :: "(char \<Rightarrow> char \<Rightarrow> nat) \<Rightarrow> char \<Rightarrow> nat" where
  "spec_row_total cnt a = (\<Sum>b \<in> UNIV. cnt a b)"

definition spec_normalize :: "(char \<Rightarrow> char \<Rightarrow> nat) \<Rightarrow> char \<rightharpoonup> (char \<rightharpoonup> real)" where
  "spec_normalize cnt =
     (\<lambda>a. if spec_row_total cnt a = 0 then None
          else Some (\<lambda>b. if cnt a b = 0 then None
                         else Some (real (cnt a b) / real (spec_row_total cnt a))))"

subsection \<open>The decoder as the specification words it\<close>

text \<open>\<open>P(b | a)\<close> read from a table, the floor \<open>1e-6\<close> standing for a missing entry.\<close>

definition spec_prob :: "table \<Rightarrow> char \<Rightarrow> char \<Rightarrow> real" where
  "spec_prob probs a b =
     (case probs a of
        None \<Rightarrow> 1 / 1000000
      | Some row \<Rightarrow> (case row b of None \<Rightarrow> 1 / 1000000 | Some p \<Rightarrow> p))"

text \<open>The first element of the list, in the list's order, at which \<open>f\<close> takes its maximum.\<close>

definition first_argmax :: "('a \<Rightarrow> real) \<Rightarrow> 'a list \<Rightarrow> 'a" where
  "first_argmax f xs = hd [x \<leftarrow> xs. f x = Max (f ` set xs)]"

text \<open>
  Initialisation and recurrence of the specification: the best score of a letter at a
  position, and the path recorded with it. The specification computes with floats, so
  its \<open>log\<close> and \<open>+\<close> are the operations \<open>fl_log\<close> and \<open>fl_add\<close>, and each sum is formed from
  left to right as the specification writes it.
\<close>

fun spec_score :: "float_ops \<Rightarrow> table \<Rightarrow> table \<Rightarrow> string \<Rightarrow> nat \<Rightarrow> char \<Rightarrow> real" where
  "spec_score fl transitions emissions observed 0 s =
     fl_add fl (fl_log fl (spec_prob transitions (CHR ''^'') s))
       (fl_log fl (spec_prob emissions s (observed ! 0)))"
| "spec_score fl transitions emissions observed (Suc t) s =
     Max ((\<lambda>s0. fl_add fl (fl_add fl (spec_score fl transitions emissions observed t s0)
                 (fl_log fl (spec_prob transitions s0 s)))
                 (fl_log fl (spec_prob emissions s (observed ! Suc t)))) ` set letters)"

fun spec_path :: "float_ops \<Rightarrow> table \<Rightarrow> table \<Rightarrow> string \<Rightarrow> nat \<Rightarrow> char \<Rightarrow> string" where
  "spec_path fl transitions emissions observed 0 s = [s]"
| "spec_path fl transitions emissions observed (Suc t) s =
     spec_path fl transitions emissions observed t
       (first_argmax (\<lambda>s0. fl_add fl (fl_add fl (spec_score fl transitions emissions observed t s0)
                            (fl_log fl (spec_prob transitions s0 s)))
                            (fl_log fl (spec_prob emissions s (observed ! Suc t)))) letters)
     @ [s]"

text \<open>Termination of the specification: the path of the letter with the best final score.\<close>

definition spec_decode :: "float_ops \<Rightarrow> string \<Rightarrow> table \<Rightarrow> table \<Rightarrow> string" where
  "spec_decode fl observed transitions emissions =
     spec_path fl transitions emissions observed (length observed - 1)
       (first_argmax (\<lambda>s. fl_add fl (spec_score fl transitions emissions observed (length observed - 1) s)
                           (fl_log fl (spec_prob transitions s (CHR ''$'')))) letters)"

text \<open>
  The invariant of the data model that the decoder relies on: every probability stored
  in a table is positive (the trainer stores values in \<open>(0, 1]\<close>).
\<close>

definition positive_table :: "table \<Rightarrow> bool" where
  "positive_table probs = (\<forall>a row b p. probs a = Some row \<longrightarrow> row b = Some p \<longrightarrow> 0 < p)"

subsection \<open>The snapper as the specification words it\<close>

text \<open>
  The distance of the specification: the difference of the lengths plus the number of
  positions below the shorter length where the two words differ.
\<close>

definition spec_distance :: "string \<Rightarrow> string \<Rightarrow> int" where
  "spec_distance word candidate =
     \<bar>int (length word) - int (length candidate)\<bar>
     + int (length [i \<leftarrow> [0..<min (length word) (length candidate)]. word ! i \<noteq> candidate ! i])"

text \<open>
  \<open>snap\<close> of the specification: an exact hit is returned unchanged, an empty vocabulary
  returns the candidate, otherwise the first word of the vocabulary at minimum distance.
\<close>

definition spec_snap :: "string \<Rightarrow> string list \<Rightarrow> string" where
  "spec_snap candidate vocabulary =
     (if candidate \<in> set vocabulary then candidate
      else if vocabulary = [] then candidate
      else hd [w \<leftarrow> vocabulary.
                 spec_distance w candidate = Min ((\<lambda>v. spec_distance v candidate) ` set vocabulary)])"

section \<open>Auxiliary notions\<close>

subsection \<open>Counts and their invariant\<close>

text \<open>The count a dictionary of counts holds for a pair, \<open>0\<close> for a missing key.\<close>

definition count_of :: "count_dict \<Rightarrow> char \<Rightarrow> char \<Rightarrow> int" where
  "count_of d a b =
     (case map_of d a of
        None \<Rightarrow> 0
      | Some row \<Rightarrow> (case map_of row b of None \<Rightarrow> 0 | Some n \<Rightarrow> n))"

text \<open>
  The invariant of the counting loops: keys are not repeated, no row is empty and every
  stored count is positive.
\<close>

definition counts_ok :: "count_dict \<Rightarrow> bool" where
  "counts_ok d \<longleftrightarrow>
     distinct (map fst d)
     \<and> (\<forall>a row. map_of d a = Some row \<longrightarrow>
           row \<noteq> [] \<and> distinct (map fst row) \<and> (\<forall>b n. map_of row b = Some n \<longrightarrow> 0 < n))"

text \<open>A row of counts divided by its total.\<close>

definition normalized :: "(char \<times> int) list \<Rightarrow> (char \<times> real) list" where
  "normalized row =
     map (\<lambda>(b, n). (b, real_of_int n / real_of_int (sum_list (map snd row)))) row"

subsection \<open>A run of the decoder in which rounding decides\<close>

text \<open>
  The tables trained on the single pair \<open>(bab, a)\<close>, written out (\<open>example_trained\<close> below
  shows that the trainer returns them), and the float operations with the values that
  IEEE doubles give them on every argument that decoding the word \<open>ab\<close> with these
  tables forms. The logarithms are \<^verbatim>\<open>math.log(1.0) = 0.0\<close>,
  \<^verbatim>\<open>math.log(0.5) = -0.6931471805599453\<close> and \<^verbatim>\<open>math.log(1e-6) = -13.815510557964274\<close>.
  Three of the sums are not exact:
  \<^verbatim>\<open>-0.6931471805599453 + -13.815510557964274 = -14.508657738524219\<close>,
  \<^verbatim>\<open>-14.508657738524219 + -13.815510557964274 = -28.324168296488494\<close> and
  \<^verbatim>\<open>-27.631021115928547 + -0.6931471805599453 = -28.32416829648849\<close>; every other sum
  of the run is exact. Each double is written as the fraction it is equal to.
\<close>

definition example_transitions :: table where
  "example_transitions =
     table_of [(CHR ''^'', [(CHR ''b'', 1)]),
               (CHR ''b'', [(CHR ''a'', 1 / 2), (CHR ''$'', 1 / 2)]),
               (CHR ''a'', [(CHR ''b'', 1)])]"

definition example_emissions :: table where
  "example_emissions = table_of [(CHR ''b'', [(CHR ''a'', 1)])]"

definition double_ops :: float_ops where
  "double_ops =
     \<lparr>fl_log = (\<lambda>x. if x = 1 then 0
                     else if x = 1 / 2 then - 6243314768165359 / 9007199254740992
                     else - 243045032034301 / 17592186044416),
      fl_add = (\<lambda>x y.
         if x = - 6243314768165359 / 9007199254740992 \<and> y = - 243045032034301 / 17592186044416
           then - 8167648198107967 / 562949953421312
         else if x = - 8167648198107967 / 562949953421312 \<and> y = - 243045032034301 / 17592186044416
           then - 498284038225175 / 17592186044416
         else if x = - 243045032034301 / 8796093022208 \<and> y = - 6243314768165359 / 9007199254740992
           then - 7972544611602799 / 281474976710656
         else x + y)\<rparr>"

section \<open>The trainer\<close>

subsection \<open>Counting one pair\<close>

lemma count_pair_eq:
  "count_pair d a b =
     Inr (AList.update a
            (AList.update b (count_of d a b + 1) (case map_of d a of None \<Rightarrow> [] | Some row \<Rightarrow> row))
            d)"
proof (cases "map_of d a")
  case None
  then show ?thesis
    by (simp add: count_pair_def count_of_def update_conv')
next
  case (Some row)
  then show ?thesis
    by (cases "map_of row b") (simp_all add: count_pair_def count_of_def update_conv')
qed

lemma counts_ok_distinct: "counts_ok d \<Longrightarrow> distinct (map fst d)"
  unfolding counts_ok_def by blast

lemma counts_ok_row:
  assumes "counts_ok d" and "map_of d a = Some row"
  shows "row \<noteq> []" and "distinct (map fst row)" and "map_of row b = Some n \<Longrightarrow> 0 < n"
  using assms unfolding counts_ok_def by blast+

lemma count_of_nonneg:
  assumes "counts_ok d"
  shows "0 \<le> count_of d a b"
proof (cases "map_of d a")
  case None
  then show ?thesis by (simp add: count_of_def)
next
  case (Some row)
  show ?thesis
  proof (cases "map_of row b")
    case None
    with Some show ?thesis by (simp add: count_of_def)
  next
    case (Some n)
    with counts_ok_row(3)[OF assms \<open>map_of d a = Some row\<close> Some] \<open>map_of d a = Some row\<close>
    show ?thesis by (simp add: count_of_def)
  qed
qed

lemma count_pair_ok:
  assumes "counts_ok d"
  shows "\<exists>d'. count_pair d a b = Inr d' \<and> counts_ok d'
           \<and> (\<forall>x y. count_of d' x y = count_of d x y + (if x = a \<and> y = b then 1 else 0))"
proof -
  let ?row = "case map_of d a of None \<Rightarrow> [] | Some row \<Rightarrow> row"
  let ?row' = "AList.update b (count_of d a b + 1) ?row"
  let ?d' = "AList.update a ?row' d"
  have eq: "count_pair d a b = Inr ?d'" by (rule count_pair_eq)
  have row_distinct: "distinct (map fst ?row)"
    using counts_ok_row(2)[OF assms] by (cases "map_of d a") simp_all
  have row_pos: "0 < n" if "map_of ?row y = Some n" for y n
    using that counts_ok_row(3)[OF assms] by (cases "map_of d a") auto
  have nonneg: "0 \<le> count_of d a b" using assms by (rule count_of_nonneg)
  have row'_pos: "0 < n" if "map_of ?row' y = Some n" for y n
  proof (cases "y = b")
    case True
    with that have "n = count_of d a b + 1" by (simp add: update_conv')
    with nonneg show ?thesis by simp
  next
    case False
    with that have "map_of ?row y = Some n" by (simp add: update_conv')
    then show ?thesis by (rule row_pos)
  qed
  have ok: "counts_ok ?d'"
    unfolding counts_ok_def
  proof (intro conjI allI impI)
    show "distinct (map fst ?d')"
      using counts_ok_distinct[OF assms] by (simp add: distinct_update)
  next
    fix x row assume look: "map_of ?d' x = Some row"
    show "row \<noteq> []"
    proof (cases "x = a")
      case True
      with look have "row = ?row'" by (simp add: update_conv')
      then show ?thesis by simp
    next
      case False
      with look have "map_of d x = Some row" by (simp add: update_conv')
      then show ?thesis by (rule counts_ok_row(1)[OF assms])
    qed
    show "distinct (map fst row)"
    proof (cases "x = a")
      case True
      with look have "row = ?row'" by (simp add: update_conv')
      then show ?thesis using row_distinct by (simp add: distinct_update)
    next
      case False
      with look have "map_of d x = Some row" by (simp add: update_conv')
      then show ?thesis by (rule counts_ok_row(2)[OF assms])
    qed
    fix y n assume n: "map_of row y = Some n"
    show "0 < n"
    proof (cases "x = a")
      case True
      with look have "row = ?row'" by (simp add: update_conv')
      with n show ?thesis using row'_pos by blast
    next
      case False
      with look have "map_of d x = Some row" by (simp add: update_conv')
      from counts_ok_row(3)[OF assms this n] show ?thesis .
    qed
  qed
  have cnt: "count_of ?d' x y = count_of d x y + (if x = a \<and> y = b then 1 else 0)" for x y
    by (auto simp: count_of_def update_conv' split: option.splits)
  from eq ok cnt show ?thesis by blast
qed

subsection \<open>The counting loops\<close>

lemma counts_ok_empty: "counts_ok []"
  by (simp add: counts_ok_def)

lemma count_of_empty: "count_of [] a b = 0"
  by (simp add: count_of_def)

lemma emission_loop_ok:
  assumes "\<forall>i \<in> set idxs. i < length correct \<and> i < length typed" and "counts_ok d"
  shows "\<exists>d'. emission_loop correct typed idxs d = Inr d' \<and> counts_ok d'
           \<and> (\<forall>x y. count_of d' x y
                 = count_of d x y + int (length [i \<leftarrow> idxs. correct ! i = x \<and> typed ! i = y]))"
  using assms
proof (induction idxs arbitrary: d)
  case Nil
  then show ?case by simp
next
  case (Cons i idxs)
  from Cons.prems(1) have i: "i < length correct" "i < length typed"
    and rest: "\<forall>j \<in> set idxs. j < length correct \<and> j < length typed" by auto
  from count_pair_ok[OF Cons.prems(2), of "correct ! i" "typed ! i"]
  obtain d1 where d1: "count_pair d (correct ! i) (typed ! i) = Inr d1" "counts_ok d1"
    and c1: "\<And>x y. count_of d1 x y
               = count_of d x y + (if x = correct ! i \<and> y = typed ! i then 1 else 0)"
    by blast
  from Cons.IH[OF rest d1(2)]
  obtain d' where d': "emission_loop correct typed idxs d1 = Inr d'" "counts_ok d'"
    and c': "\<And>x y. count_of d' x y
               = count_of d1 x y + int (length [j \<leftarrow> idxs. correct ! j = x \<and> typed ! j = y])"
    by blast
  have "emission_loop correct typed (i # idxs) d = Inr d'"
    using i d1(1) d'(1) by (simp add: getitem_def)
  moreover have "count_of d' x y
      = count_of d x y + int (length [j \<leftarrow> i # idxs. correct ! j = x \<and> typed ! j = y])" for x y
    by (simp add: c' c1)
  ultimately show ?case using d'(2) by blast
qed

lemma emission_pairs_loop_ok:
  assumes "counts_ok d"
  shows "\<exists>d'. emission_pairs_loop pairs d = Inr d' \<and> counts_ok d'
           \<and> (\<forall>x y. count_of d' x y = count_of d x y + int (spec_emission_count pairs x y))"
  using assms
proof (induction pairs arbitrary: d)
  case Nil
  then show ?case by (simp add: spec_emission_count_def)
next
  case (Cons p pairs)
  obtain correct typed where p: "p = (correct, typed)" by (cases p)
  let ?len = "min (length correct) (length typed)"
  have len: "(if length typed < length correct then length typed else length correct) = ?len"
    by (simp add: min_def)
  have range: "\<forall>i \<in> set [0..<?len]. i < length correct \<and> i < length typed" by simp
  from emission_loop_ok[OF range Cons.prems]
  obtain d1 where d1: "emission_loop correct typed [0..<?len] d = Inr d1" "counts_ok d1"
    and c1: "\<And>x y. count_of d1 x y
               = count_of d x y + int (length [i \<leftarrow> [0..<?len]. correct ! i = x \<and> typed ! i = y])"
    by blast
  from Cons.IH[OF d1(2)]
  obtain d' where d': "emission_pairs_loop pairs d1 = Inr d'" "counts_ok d'"
    and c': "\<And>x y. count_of d' x y = count_of d1 x y + int (spec_emission_count pairs x y)"
    by blast
  have "emission_pairs_loop (p # pairs) d = Inr d'"
    unfolding p using d1(1) d'(1) by (simp add: len Let_def)
  moreover have "count_of d' x y
      = count_of d x y + int (spec_emission_count (p # pairs) x y)" for x y
    unfolding p by (simp add: c' c1 spec_emission_count_def)
  ultimately show ?case using d'(2) by blast
qed

lemma transition_loop_ok:
  assumes "\<forall>i \<in> set idxs. Suc i < length word" and "counts_ok d"
  shows "\<exists>d'. transition_loop word idxs d = Inr d' \<and> counts_ok d'
           \<and> (\<forall>x y. count_of d' x y
                 = count_of d x y + int (length [i \<leftarrow> idxs. word ! i = x \<and> word ! Suc i = y]))"
  using assms
proof (induction idxs arbitrary: d)
  case Nil
  then show ?case by simp
next
  case (Cons i idxs)
  from Cons.prems(1) have i: "i < length word" "Suc i < length word"
    and rest: "\<forall>j \<in> set idxs. Suc j < length word" by auto
  from count_pair_ok[OF Cons.prems(2), of "word ! i" "word ! Suc i"]
  obtain d1 where d1: "count_pair d (word ! i) (word ! Suc i) = Inr d1" "counts_ok d1"
    and c1: "\<And>x y. count_of d1 x y
               = count_of d x y + (if x = word ! i \<and> y = word ! Suc i then 1 else 0)"
    by blast
  from Cons.IH[OF rest d1(2)]
  obtain d' where d': "transition_loop word idxs d1 = Inr d'" "counts_ok d'"
    and c': "\<And>x y. count_of d' x y
               = count_of d1 x y + int (length [j \<leftarrow> idxs. word ! j = x \<and> word ! Suc j = y])"
    by blast
  have "transition_loop word (i # idxs) d = Inr d'"
    using i d1(1) d'(1) by (simp add: getitem_def)
  moreover have "count_of d' x y
      = count_of d x y + int (length [j \<leftarrow> i # idxs. word ! j = x \<and> word ! Suc j = y])" for x y
    by (simp add: c' c1)
  ultimately show ?case using d'(2) by blast
qed

lemma transition_pairs_loop_ok:
  assumes "counts_ok d"
  shows "\<exists>d'. transition_pairs_loop pairs d = Inr d' \<and> counts_ok d'
           \<and> (\<forall>x y. count_of d' x y = count_of d x y + int (spec_transition_count pairs x y))"
  using assms
proof (induction pairs arbitrary: d)
  case Nil
  then show ?case by (simp add: spec_transition_count_def)
next
  case (Cons p pairs)
  obtain correct typed where p: "p = (correct, typed)" by (cases p)
  let ?word = "spec_padded correct"
  have word: "''^'' @ correct @ ''$'' = ?word" by (simp add: spec_padded_def)
  have range: "\<forall>i \<in> set [0..<length ?word - 1]. Suc i < length ?word" by auto
  from transition_loop_ok[OF range Cons.prems]
  obtain d1 where d1: "transition_loop ?word [0..<length ?word - 1] d = Inr d1" "counts_ok d1"
    and c1: "\<And>x y. count_of d1 x y
               = count_of d x y
                 + int (length [i \<leftarrow> [0..<length ?word - 1]. ?word ! i = x \<and> ?word ! Suc i = y])"
    by blast
  from Cons.IH[OF d1(2)]
  obtain d' where d': "transition_pairs_loop pairs d1 = Inr d'" "counts_ok d'"
    and c': "\<And>x y. count_of d' x y = count_of d1 x y + int (spec_transition_count pairs x y)"
    by blast
  have "transition_pairs_loop (p # pairs) d = Inr d'"
    unfolding p transition_pairs_loop.simps word Let_def using d1(1) d'(1) by simp
  moreover have "count_of d' x y
      = count_of d x y + int (spec_transition_count (p # pairs) x y)" for x y
    unfolding p by (simp add: c' c1 spec_transition_count_def)
  ultimately show ?case using d'(2) by blast
qed

subsection \<open>Association lists\<close>

lemma update_new_key:
  "k \<notin> fst ` set al \<Longrightarrow> AList.update k v al = al @ [(k, v)]"
  by (induction al) auto

lemma map_of_key:
  "distinct (map fst al) \<Longrightarrow> (k, v) \<in> set al \<Longrightarrow> map_of al k = Some v"
  by simp

lemma map_lookup_keys:
  assumes "distinct (map fst al)"
  shows "map (\<lambda>k. h k (the (map_of al k))) (map fst al) = map (\<lambda>(k, v). h k v) al"
proof -
  have "h (fst p) (the (map_of al (fst p))) = (case p of (k, v) \<Rightarrow> h k v)" if "p \<in> set al" for p
  proof -
    obtain k v where p: "p = (k, v)" by (cases p)
    with that assms have "map_of al k = Some v" by (intro map_of_key) auto
    with p show ?thesis by simp
  qed
  then show ?thesis by (simp add: comp_def)
qed

lemma sum_list_lookup:
  fixes al :: "('k :: finite \<times> int) list"
  assumes "distinct (map fst al)"
  shows "sum_list (map snd al) = (\<Sum>b \<in> UNIV. case map_of al b of None \<Rightarrow> 0 | Some n \<Rightarrow> n)"
  using assms
proof (induction al)
  case Nil
  then show ?case by simp
next
  case (Cons p al)
  obtain k v where p: "p = (k, v)" by (cases p)
  let ?f = "\<lambda>b. case map_of al b of None \<Rightarrow> 0 | Some n \<Rightarrow> n"
  let ?g = "\<lambda>b. case map_of (p # al) b of None \<Rightarrow> 0 | Some n \<Rightarrow> n"
  from Cons.prems p have k: "k \<notin> fst ` set al" and d: "distinct (map fst al)" by auto
  from k have fk: "?f k = 0" by (simp add: map_of_eq_None_iff[THEN iffD2])
  have "sum ?g UNIV = ?g k + sum ?g (UNIV - {k})"
    by (rule sum.remove) simp_all
  also have "?g k = v" by (simp add: p)
  also have "sum ?g (UNIV - {k}) = sum ?f (UNIV - {k})"
    by (rule sum.cong) (auto simp: p)
  also have "sum ?f (UNIV - {k}) = ?f k + sum ?f (UNIV - {k})" by (simp add: fk)
  also have "\<dots> = sum ?f UNIV"
    by (rule sum.remove[symmetric]) simp_all
  finally have "sum ?g UNIV = v + sum ?f UNIV" .
  with Cons.IH[OF d] show ?case by (simp add: p)
qed

lemma sum_list_positive:
  fixes xs :: "int list"
  shows "xs \<noteq> [] \<Longrightarrow> \<forall>x \<in> set xs. 0 < x \<Longrightarrow> 0 < sum_list xs"
proof (induction xs)
  case Nil
  then show ?case by simp
next
  case (Cons x xs)
  have "0 \<le> sum_list xs" using Cons.prems(2) by (intro sum_list_nonneg) auto
  with Cons.prems(2) show ?case by simp
qed

subsection \<open>The normalisation loops\<close>

lemma row_total_eq:
  "\<forall>k \<in> set ks. map_of row k \<noteq> None \<Longrightarrow>
   row_total row ks tot = Inr (tot + sum_list (map (\<lambda>k. the (map_of row k)) ks))"
  by (induction ks arbitrary: tot) auto

lemma row_total_keys:
  assumes "distinct (map fst row)"
  shows "row_total row (map fst row) 0 = Inr (sum_list (map snd row))"
proof -
  have "\<forall>k \<in> set (map fst row). map_of row k \<noteq> None"
    by (simp add: map_of_eq_None_iff)
  from row_total_eq[OF this, of 0]
  have "row_total row (map fst row) 0
          = Inr (sum_list (map (\<lambda>k. the (map_of row k)) (map fst row)))" by simp
  also have "map (\<lambda>k. the (map_of row k)) (map fst row) = map (\<lambda>(k, v). v) row"
    by (rule map_lookup_keys[OF assms, of "\<lambda>k v. v"])
  also have "map (\<lambda>(k, v). v) row = map snd row" by (simp add: case_prod_unfold)
  finally show ?thesis .
qed

lemma normalize_row_eq:
  assumes "tot \<noteq> 0"
  shows "distinct ks \<Longrightarrow> set ks \<inter> fst ` set probs = {} \<Longrightarrow>
     \<forall>k \<in> set ks. map_of row k \<noteq> None \<Longrightarrow>
     normalize_row row tot ks probs
       = Inr (probs @ map (\<lambda>k. (k, real_of_int (the (map_of row k)) / real_of_int tot)) ks)"
proof (induction ks arbitrary: probs)
  case Nil
  then show ?case by simp
next
  case (Cons k ks)
  from Cons.prems(3) obtain n where n: "map_of row k = Some n" by auto
  let ?p = "probs @ [(k, real_of_int n / real_of_int tot)]"
  from Cons.prems(2) have "k \<notin> fst ` set probs" by auto
  then have upd: "AList.update k (real_of_int n / real_of_int tot) probs = ?p"
    by (rule update_new_key)
  have disj: "set ks \<inter> fst ` set ?p = {}" using Cons.prems(1,2) by auto
  have "normalize_row row tot (k # ks) probs = normalize_row row tot ks ?p"
    using assms n upd by simp
  also have "\<dots> = Inr (?p @ map (\<lambda>k. (k, real_of_int (the (map_of row k)) / real_of_int tot)) ks)"
    using Cons.prems(1,3) disj by (intro Cons.IH) auto
  finally show ?case using n by simp
qed

lemma normalize_row_keys:
  assumes "distinct (map fst row)" and "sum_list (map snd row) \<noteq> 0"
  shows "normalize_row row (sum_list (map snd row)) (map fst row) [] = Inr (normalized row)"
proof -
  let ?tot = "sum_list (map snd row)"
  have "\<forall>k \<in> set (map fst row). map_of row k \<noteq> None"
    by (simp add: map_of_eq_None_iff)
  from normalize_row_eq[OF assms(2) assms(1) _ this, of "[]"]
  have "normalize_row row ?tot (map fst row) []
          = Inr (map (\<lambda>k. (k, real_of_int (the (map_of row k)) / real_of_int ?tot)) (map fst row))"
    by simp
  also have "map (\<lambda>k. (k, real_of_int (the (map_of row k)) / real_of_int ?tot)) (map fst row)
               = map (\<lambda>(k, v). (k, real_of_int v / real_of_int ?tot)) row"
    by (rule map_lookup_keys[OF assms(1), of "\<lambda>k v. (k, real_of_int v / real_of_int ?tot)"])
  finally show ?thesis by (simp add: normalized_def)
qed

lemma normalize_rows_eq:
  "distinct ks \<Longrightarrow> set ks \<inter> fst ` set probs = {} \<Longrightarrow>
   \<forall>a \<in> set ks. \<exists>row. map_of d a = Some row \<and> distinct (map fst row)
                         \<and> sum_list (map snd row) \<noteq> 0 \<Longrightarrow>
   normalize_rows d ks probs = Inr (probs @ map (\<lambda>a. (a, normalized (the (map_of d a)))) ks)"
proof (induction ks arbitrary: probs)
  case Nil
  then show ?case by simp
next
  case (Cons a ks)
  from Cons.prems(3) obtain row where row: "map_of d a = Some row" "distinct (map fst row)"
    "sum_list (map snd row) \<noteq> 0" by auto
  let ?p = "probs @ [(a, normalized row)]"
  from Cons.prems(2) have "a \<notin> fst ` set probs" by auto
  then have upd: "AList.update a (normalized row) probs = ?p"
    by (rule update_new_key)
  have disj: "set ks \<inter> fst ` set ?p = {}" using Cons.prems(1,2) by auto
  have "normalize_rows d (a # ks) probs = normalize_rows d ks ?p"
    using row(1) upd by (simp add: row_total_keys[OF row(2)] normalize_row_keys[OF row(2,3)])
  also have "\<dots> = Inr (?p @ map (\<lambda>a. (a, normalized (the (map_of d a)))) ks)"
    using Cons.prems(1,3) disj by (intro Cons.IH) auto
  finally show ?case using row(1) by simp
qed

lemma counts_ok_row_sum:
  assumes "counts_ok d" and "map_of d a = Some row"
  shows "0 < sum_list (map snd row)"
proof (rule sum_list_positive)
  show "map snd row \<noteq> []" using counts_ok_row(1)[OF assms] by simp
  show "\<forall>x \<in> set (map snd row). 0 < x"
  proof
    fix x assume "x \<in> set (map snd row)"
    then obtain k where "(k, x) \<in> set row" by auto
    with counts_ok_row(2)[OF assms] have "map_of row k = Some x" by (intro map_of_key)
    then show "0 < x" by (rule counts_ok_row(3)[OF assms])
  qed
qed

text \<open>On well-formed counts the normalisation returns every row divided by its total, in order.\<close>

lemma normalize_rows_counts:
  assumes "counts_ok d"
  shows "normalize_rows d (map fst d) [] = Inr (map (\<lambda>(a, row). (a, normalized row)) d)"
proof -
  have rows: "\<forall>a \<in> set (map fst d). \<exists>row. map_of d a = Some row \<and> distinct (map fst row)
                \<and> sum_list (map snd row) \<noteq> 0"
  proof
    fix a assume "a \<in> set (map fst d)"
    then obtain row where "(a, row) \<in> set d" by auto
    with counts_ok_distinct[OF assms] have look: "map_of d a = Some row" by (intro map_of_key)
    from counts_ok_row(2)[OF assms look] counts_ok_row_sum[OF assms look] look
    show "\<exists>row. map_of d a = Some row \<and> distinct (map fst row) \<and> sum_list (map snd row) \<noteq> 0"
      by auto
  qed
  from normalize_rows_eq[OF counts_ok_distinct[OF assms] _ rows, of "[]"]
  have "normalize_rows d (map fst d) []
          = Inr (map (\<lambda>a. (a, normalized (the (map_of d a)))) (map fst d))" by simp
  also have "map (\<lambda>a. (a, normalized (the (map_of d a)))) (map fst d)
               = map (\<lambda>(a, row). (a, normalized row)) d"
    by (rule map_lookup_keys[OF counts_ok_distinct[OF assms], of "\<lambda>a row. (a, normalized row)"])
  finally show ?thesis .
qed

subsection \<open>The table of a normalised dictionary of counts\<close>

lemma map_of_normalized:
  "map_of (normalized row) b
     = map_option (\<lambda>n. real_of_int n / real_of_int (sum_list (map snd row))) (map_of row b)"
  unfolding normalized_def by (simp add: map_of_map)

lemma count_of_row:
  "map_of d a = Some row \<Longrightarrow>
   count_of d a b = (case map_of row b of None \<Rightarrow> 0 | Some n \<Rightarrow> n)"
  by (simp add: count_of_def)

lemma counts_ok_total:
  assumes ok: "counts_ok d" and cnt: "\<And>x y. count_of d x y = int (cnt x y)"
    and row: "map_of d a = Some row"
  shows "sum_list (map snd row) = int (spec_row_total cnt a)"
proof -
  have "sum_list (map snd row) = (\<Sum>b \<in> UNIV. case map_of row b of None \<Rightarrow> 0 | Some n \<Rightarrow> n)"
    by (rule sum_list_lookup[OF counts_ok_row(2)[OF ok row]])
  also have "\<dots> = (\<Sum>b \<in> UNIV. int (cnt a b))"
    by (rule sum.cong) (simp_all add: count_of_row[OF row, symmetric] cnt)
  finally show ?thesis by (simp add: spec_row_total_def)
qed

lemma trained_table:
  assumes ok: "counts_ok d" and cnt: "\<And>x y. count_of d x y = int (cnt x y)"
  shows "table_of (map (\<lambda>(a, row). (a, normalized row)) d) = spec_normalize cnt"
proof
  fix a
  have look: "table_of (map (\<lambda>(a, row). (a, normalized row)) d) a
                = map_option (\<lambda>row. map_of (normalized row)) (map_of d a)"
    by (simp add: table_of_def map_of_map option.map_comp comp_def)
  show "table_of (map (\<lambda>(a, row). (a, normalized row)) d) a = spec_normalize cnt a"
  proof (cases "map_of d a")
    case None
    then have "count_of d a b = 0" for b by (simp add: count_of_def)
    then have "cnt a b = 0" for b using cnt[of a b] by simp
    then have "spec_row_total cnt a = 0" by (simp add: spec_row_total_def)
    with None look show ?thesis by (simp add: spec_normalize_def)
  next
    case (Some row)
    have tot: "sum_list (map snd row) = int (spec_row_total cnt a)"
      by (rule counts_ok_total[OF ok cnt Some])
    with counts_ok_row_sum[OF ok Some] have nz: "spec_row_total cnt a \<noteq> 0" by auto
    have "map_of (normalized row)
            = (\<lambda>b. if cnt a b = 0 then None
                    else Some (real (cnt a b) / real (spec_row_total cnt a)))"
    proof
      fix b
      show "map_of (normalized row) b
              = (if cnt a b = 0 then None
                 else Some (real (cnt a b) / real (spec_row_total cnt a)))"
      proof (cases "map_of row b")
        case None
        with count_of_row[OF Some, of b] cnt[of a b] have "cnt a b = 0" by simp
        with None show ?thesis by (simp add: map_of_normalized)
      next
        case (Some n)
        with count_of_row[OF \<open>map_of d a = Some row\<close>, of b] cnt[of a b]
        have n: "n = int (cnt a b)" by simp
        from counts_ok_row(3)[OF ok \<open>map_of d a = Some row\<close> Some] n have "cnt a b \<noteq> 0"
          by auto
        with Some n tot show ?thesis by (simp add: map_of_normalized)
      qed
    qed
    with Some look nz show ?thesis by (simp add: spec_normalize_def)
  qed
qed

text \<open>
  Both trainers return, and return the normalised rows of a well-formed dictionary of
  counts that holds exactly the counts of the specification.
\<close>

lemma compute_emissions_eq:
  "\<exists>d. compute_emissions pairs = Inr (map (\<lambda>(a, row). (a, normalized row)) d)
       \<and> counts_ok d \<and> (\<forall>x y. count_of d x y = int (spec_emission_count pairs x y))"
proof -
  from emission_pairs_loop_ok[OF counts_ok_empty, of pairs]
  obtain d where d: "emission_pairs_loop pairs [] = Inr d" "counts_ok d"
    and c: "\<And>x y. count_of d x y = count_of [] x y + int (spec_emission_count pairs x y)"
    by blast
  have "compute_emissions pairs = Inr (map (\<lambda>(a, row). (a, normalized row)) d)"
    by (simp add: compute_emissions_def d(1) normalize_rows_counts[OF d(2)])
  moreover have "count_of d x y = int (spec_emission_count pairs x y)" for x y
    by (simp add: c count_of_empty)
  ultimately show ?thesis using d(2) by blast
qed

lemma compute_transitions_eq:
  "\<exists>d. compute_transitions pairs = Inr (map (\<lambda>(a, row). (a, normalized row)) d)
       \<and> counts_ok d \<and> (\<forall>x y. count_of d x y = int (spec_transition_count pairs x y))"
proof -
  from transition_pairs_loop_ok[OF counts_ok_empty, of pairs]
  obtain d where d: "transition_pairs_loop pairs [] = Inr d" "counts_ok d"
    and c: "\<And>x y. count_of d x y = count_of [] x y + int (spec_transition_count pairs x y)"
    by blast
  have "compute_transitions pairs = Inr (map (\<lambda>(a, row). (a, normalized row)) d)"
    by (simp add: compute_transitions_def d(1) normalize_rows_counts[OF d(2)])
  moreover have "count_of d x y = int (spec_transition_count pairs x y)" for x y
    by (simp add: c count_of_empty)
  ultimately show ?thesis using d(2) by blast
qed

text \<open>
  C5. For every list of training pairs both trainers return without raising, and the
  tables they return are the counting definitions of the specification: the emission
  counts of the aligned positions below the shorter length, and the transition counts
  of the adjacent pairs of the padded correct word, each row divided by its total.
\<close>

theorem trainer_is_spec_counting:
  "(\<exists>E. compute_emissions pairs = Inr E
        \<and> table_of E = spec_normalize (spec_emission_count pairs))
   \<and> (\<exists>T. compute_transitions pairs = Inr T
        \<and> table_of T = spec_normalize (spec_transition_count pairs))"
proof
  from compute_emissions_eq[of pairs]
  obtain d where "compute_emissions pairs = Inr (map (\<lambda>(a, row). (a, normalized row)) d)"
    and "counts_ok d" and "\<And>x y. count_of d x y = int (spec_emission_count pairs x y)"
    by blast
  then show "\<exists>E. compute_emissions pairs = Inr E
        \<and> table_of E = spec_normalize (spec_emission_count pairs)"
    using trained_table[of d "spec_emission_count pairs"] by simp
next
  from compute_transitions_eq[of pairs]
  obtain d where "compute_transitions pairs = Inr (map (\<lambda>(a, row). (a, normalized row)) d)"
    and "counts_ok d" and "\<And>x y. count_of d x y = int (spec_transition_count pairs x y)"
    by blast
  then show "\<exists>T. compute_transitions pairs = Inr T
        \<and> table_of T = spec_normalize (spec_transition_count pairs)"
    using trained_table[of d "spec_transition_count pairs"] by simp
qed

subsection \<open>Rows of probabilities\<close>

lemma sum_list_divide:
  "sum_list (map (\<lambda>p. real_of_int (snd p) / c) row) = real_of_int (sum_list (map snd row)) / c"
  by (induction row) (simp_all add: add_divide_distrib)

lemma member_le_sum_list_int:
  fixes xs :: "int list"
  shows "\<forall>y \<in> set xs. 0 \<le> y \<Longrightarrow> x \<in> set xs \<Longrightarrow> x \<le> sum_list xs"
proof (induction xs)
  case Nil
  then show ?case by simp
next
  case (Cons y ys)
  have nonneg: "0 \<le> sum_list ys" using Cons.prems(1) by (intro sum_list_nonneg) auto
  show ?case
  proof (cases "x = y")
    case True
    with nonneg show ?thesis by simp
  next
    case False
    with Cons.prems have "x \<le> sum_list ys" by (intro Cons.IH) auto
    with Cons.prems(1) show ?thesis by simp
  qed
qed

lemma normalized_row:
  assumes ok: "counts_ok d" and row: "map_of d a = Some row"
  shows "map fst (normalized row) = map fst row"
    and "sum_list (map snd (normalized row)) = 1"
    and "(b, p) \<in> set (normalized row) \<Longrightarrow> 0 < p \<and> p \<le> 1"
proof -
  let ?tot = "sum_list (map snd row)"
  have tot: "0 < ?tot" by (rule counts_ok_row_sum[OF ok row])
  have pos: "0 < n" if "(k, n) \<in> set row" for k n
  proof -
    from that counts_ok_row(2)[OF ok row] have "map_of row k = Some n" by (intro map_of_key)
    then show ?thesis by (rule counts_ok_row(3)[OF ok row])
  qed
  show "map fst (normalized row) = map fst row"
    by (simp add: normalized_def comp_def case_prod_unfold)
  have "map snd (normalized row) = map (\<lambda>p. real_of_int (snd p) / real_of_int ?tot) row"
    by (simp add: normalized_def comp_def case_prod_unfold)
  then have "sum_list (map snd (normalized row)) = real_of_int ?tot / real_of_int ?tot"
    by (simp only: sum_list_divide)
  with tot show "sum_list (map snd (normalized row)) = 1" by simp
  show "0 < p \<and> p \<le> 1" if "(b, p) \<in> set (normalized row)"
  proof -
    from that obtain n where n: "(b, n) \<in> set row"
      and p: "p = real_of_int n / real_of_int ?tot"
      by (auto simp: normalized_def)
    have "\<forall>y \<in> set (map snd row). 0 \<le> y"
    proof
      fix y assume "y \<in> set (map snd row)"
      then obtain k where "(k, y) \<in> set row" by auto
      from pos[OF this] show "0 \<le> y" by simp
    qed
    moreover have "n \<in> set (map snd row)" using n by force
    ultimately have "n \<le> ?tot" by (rule member_le_sum_list_int)
    with pos[OF n] tot show ?thesis unfolding p by simp
  qed
qed

lemma row_has_count:
  assumes ok: "counts_ok d" and row: "map_of d a = Some row"
  shows "\<exists>b. 0 < count_of d a b"
proof -
  from counts_ok_row(1)[OF ok row] obtain b n where "(b, n) \<in> set row"
    by (cases row) auto
  with counts_ok_row(2)[OF ok row] have look: "map_of row b = Some n" by (intro map_of_key)
  from counts_ok_row(3)[OF ok row look] look row have "0 < count_of d a b"
    by (simp add: count_of_def)
  then show ?thesis ..
qed

lemma sum_list_positive_element:
  fixes f :: "'a \<Rightarrow> nat"
  shows "0 < sum_list (map f xs) \<Longrightarrow> \<exists>x \<in> set xs. 0 < f x"
  by (induction xs) auto

lemma emission_count_observed:
  assumes "0 < spec_emission_count pairs c t"
  shows "\<exists>(correct, typed) \<in> set pairs.
           \<exists>i < min (length correct) (length typed). correct ! i = c \<and> typed ! i = t"
proof -
  from assms obtain p where p: "p \<in> set pairs"
    and pos: "0 < (case p of (correct, typed) \<Rightarrow>
       length [i \<leftarrow> [0..<min (length correct) (length typed)]. correct ! i = c \<and> typed ! i = t])"
    unfolding spec_emission_count_def by (blast dest: sum_list_positive_element)
  obtain correct typed where ct: "p = (correct, typed)" by (cases p)
  from pos have "[i \<leftarrow> [0..<min (length correct) (length typed)]. correct ! i = c \<and> typed ! i = t] \<noteq> []"
    unfolding ct by auto
  then obtain i where "i < min (length correct) (length typed)" "correct ! i = c" "typed ! i = t"
    by (auto simp: filter_empty_conv)
  with p ct show ?thesis by blast
qed

lemma transition_count_observed:
  assumes "0 < spec_transition_count pairs a b"
  shows "\<exists>(correct, typed) \<in> set pairs.
           \<exists>i < length (''^'' @ correct @ ''$'') - 1.
              (''^'' @ correct @ ''$'') ! i = a \<and> (''^'' @ correct @ ''$'') ! Suc i = b"
proof -
  from assms obtain p where p: "p \<in> set pairs"
    and pos: "0 < (case p of (correct, typed) \<Rightarrow>
       length [i \<leftarrow> [0..<length (spec_padded correct) - 1].
                 spec_padded correct ! i = a \<and> spec_padded correct ! Suc i = b])"
    unfolding spec_transition_count_def by (blast dest: sum_list_positive_element)
  obtain correct typed where ct: "p = (correct, typed)" by (cases p)
  have word: "spec_padded correct = ''^'' @ correct @ ''$''" by (simp add: spec_padded_def)
  from pos have "[i \<leftarrow> [0..<length (spec_padded correct) - 1].
                 spec_padded correct ! i = a \<and> spec_padded correct ! Suc i = b] \<noteq> []"
    unfolding ct by auto
  then obtain i where "i < length (spec_padded correct) - 1"
    "spec_padded correct ! i = a" "spec_padded correct ! Suc i = b"
    by (auto simp: filter_empty_conv)
  with p ct show ?thesis unfolding word by blast
qed

lemma normalized_dict_rows:
  assumes ok: "counts_ok d"
    and mem: "(a, prow) \<in> set (map (\<lambda>(a, row). (a, normalized row)) d)"
  shows "distinct (map fst prow)" and "sum_list (map snd prow) = 1"
    and "\<forall>(b, p) \<in> set prow. 0 < p \<and> p \<le> 1" and "\<exists>b. 0 < count_of d a b"
proof -
  from mem obtain row where row: "(a, row) \<in> set d" and prow: "prow = normalized row"
    by auto
  from row counts_ok_distinct[OF ok] have look: "map_of d a = Some row" by (intro map_of_key)
  show "distinct (map fst prow)"
    unfolding prow normalized_row(1)[OF ok look] by (rule counts_ok_row(2)[OF ok look])
  show "sum_list (map snd prow) = 1"
    unfolding prow by (rule normalized_row(2)[OF ok look])
  show "\<forall>(b, p) \<in> set prow. 0 < p \<and> p \<le> 1"
    unfolding prow using normalized_row(3)[OF ok look] by blast
  show "\<exists>b. 0 < count_of d a b" by (rule row_has_count[OF ok look])
qed

lemma normalized_dict_keys:
  "map fst (map (\<lambda>(a, row). (a, normalized row)) d) = map fst d"
  by (simp add: comp_def case_prod_unfold)

text \<open>
  C6. For every list of training pairs both trainers return dictionaries without
  repeated keys in which every row sums to \<open>1\<close> (in exact arithmetic), every stored
  probability lies in \<open>(0, 1]\<close>, and every row key was observed in the counted position:
  as \<^verbatim>\<open>correct[i]\<close> at an aligned position for the emissions, as the first character of
  an adjacent pair of \<^verbatim>\<open>"^" + correct + "$"\<close> for the transitions.
\<close>

theorem trainer_rows_are_distributions:
  "\<exists>E T. compute_emissions pairs = Inr E \<and> compute_transitions pairs = Inr T
     \<and> distinct (map fst E) \<and> distinct (map fst T)
     \<and> (\<forall>(c, row) \<in> set E.
           distinct (map fst row) \<and> sum_list (map snd row) = 1
           \<and> (\<forall>(t, p) \<in> set row. 0 < p \<and> p \<le> 1)
           \<and> (\<exists>(correct, typed) \<in> set pairs.
                 \<exists>i < min (length correct) (length typed). correct ! i = c))
     \<and> (\<forall>(a, row) \<in> set T.
           distinct (map fst row) \<and> sum_list (map snd row) = 1
           \<and> (\<forall>(b, p) \<in> set row. 0 < p \<and> p \<le> 1)
           \<and> (\<exists>(correct, typed) \<in> set pairs.
                 \<exists>i < length (''^'' @ correct @ ''$'') - 1. (''^'' @ correct @ ''$'') ! i = a))"
proof -
  from compute_emissions_eq[of pairs]
  obtain de where E: "compute_emissions pairs = Inr (map (\<lambda>(a, row). (a, normalized row)) de)"
    and oke: "counts_ok de"
    and ce: "\<And>x y. count_of de x y = int (spec_emission_count pairs x y)"
    by blast
  from compute_transitions_eq[of pairs]
  obtain dt where T: "compute_transitions pairs = Inr (map (\<lambda>(a, row). (a, normalized row)) dt)"
    and okt: "counts_ok dt"
    and ct: "\<And>x y. count_of dt x y = int (spec_transition_count pairs x y)"
    by blast
  let ?E = "map (\<lambda>(a, row). (a, normalized row)) de"
  let ?T = "map (\<lambda>(a, row). (a, normalized row)) dt"
  have dE: "distinct (map fst ?E)"
    unfolding normalized_dict_keys by (rule counts_ok_distinct[OF oke])
  have dT: "distinct (map fst ?T)"
    unfolding normalized_dict_keys by (rule counts_ok_distinct[OF okt])
  have rowsE: "\<forall>(c, row) \<in> set ?E.
           distinct (map fst row) \<and> sum_list (map snd row) = 1
           \<and> (\<forall>(t, p) \<in> set row. 0 < p \<and> p \<le> 1)
           \<and> (\<exists>(correct, typed) \<in> set pairs.
                 \<exists>i < min (length correct) (length typed). correct ! i = c)"
  proof (intro ballI, clarify)
    fix c prow assume mem: "(c, prow) \<in> set ?E"
    from normalized_dict_rows(4)[OF oke mem] obtain t where "0 < count_of de c t" ..
    then have "0 < spec_emission_count pairs c t" by (simp add: ce)
    from emission_count_observed[OF this]
    have "\<exists>(correct, typed) \<in> set pairs.
            \<exists>i < min (length correct) (length typed). correct ! i = c" by blast
    with normalized_dict_rows(1-3)[OF oke mem]
    show "distinct (map fst prow) \<and> sum_list (map snd prow) = 1
           \<and> (\<forall>(t, p) \<in> set prow. 0 < p \<and> p \<le> 1)
           \<and> (\<exists>(correct, typed) \<in> set pairs.
                 \<exists>i < min (length correct) (length typed). correct ! i = c)" by blast
  qed
  have rowsT: "\<forall>(a, row) \<in> set ?T.
           distinct (map fst row) \<and> sum_list (map snd row) = 1
           \<and> (\<forall>(b, p) \<in> set row. 0 < p \<and> p \<le> 1)
           \<and> (\<exists>(correct, typed) \<in> set pairs.
                 \<exists>i < length (''^'' @ correct @ ''$'') - 1. (''^'' @ correct @ ''$'') ! i = a)"
  proof (intro ballI, clarify)
    fix a prow assume mem: "(a, prow) \<in> set ?T"
    from normalized_dict_rows(4)[OF okt mem] obtain b where "0 < count_of dt a b" ..
    then have "0 < spec_transition_count pairs a b" by (simp add: ct)
    from transition_count_observed[OF this]
    have "\<exists>(correct, typed) \<in> set pairs.
            \<exists>i < length (''^'' @ correct @ ''$'') - 1. (''^'' @ correct @ ''$'') ! i = a" by blast
    with normalized_dict_rows(1-3)[OF okt mem]
    show "distinct (map fst prow) \<and> sum_list (map snd prow) = 1
           \<and> (\<forall>(b, p) \<in> set prow. 0 < p \<and> p \<le> 1)
           \<and> (\<exists>(correct, typed) \<in> set pairs.
                 \<exists>i < length (''^'' @ correct @ ''$'') - 1. (''^'' @ correct @ ''$'') ! i = a)"
      by blast
  qed
  from E T dE dT rowsE rowsT show ?thesis by blast
qed

text \<open>The trainer on two small corpora.\<close>

lemma compute_emissions_example:
  "compute_emissions [(''cat'', ''kat''), (''cat'', ''cat'')]
     = Inr [(CHR ''c'', [(CHR ''k'', 1 / 2), (CHR ''c'', 1 / 2)]),
            (CHR ''a'', [(CHR ''a'', 1)]), (CHR ''t'', [(CHR ''t'', 1)])]"
  by (simp add: compute_emissions_def count_pair_def getitem_def upt_conv_Cons)

lemma compute_transitions_example:
  "compute_transitions [(''cat'', ''kat''), (''cat'', ''cat'')]
     = Inr [(CHR ''^'', [(CHR ''c'', 1)]), (CHR ''c'', [(CHR ''a'', 1)]),
            (CHR ''a'', [(CHR ''t'', 1)]), (CHR ''t'', [(CHR ''$'', 1)])]"
  by (simp add: compute_transitions_def count_pair_def getitem_def upt_conv_Cons)

theorem trainer_rows_are_distributions_witness:
  "\<exists>E T. compute_emissions [(''cat'', ''kat''), (''cat'', ''cat'')] = Inr E
     \<and> compute_transitions [(''cat'', ''kat''), (''cat'', ''cat'')] = Inr T
     \<and> E \<noteq> [] \<and> T \<noteq> []
     \<and> sum_list (map snd (snd (hd E))) = 1 \<and> sum_list (map snd (snd (hd T))) = 1"
proof -
  from trainer_rows_are_distributions[of "[(''cat'', ''kat''), (''cat'', ''cat'')]"]
  obtain E T where E: "compute_emissions [(''cat'', ''kat''), (''cat'', ''cat'')] = Inr E"
    and T: "compute_transitions [(''cat'', ''kat''), (''cat'', ''cat'')] = Inr T"
    and rowsE: "\<forall>(c, row) \<in> set E. sum_list (map snd row) = 1"
    and rowsT: "\<forall>(a, row) \<in> set T. sum_list (map snd row) = 1"
    by fastforce
  from E have neE: "E \<noteq> []" unfolding compute_emissions_example by auto
  from T have neT: "T \<noteq> []" unfolding compute_transitions_example by auto
  from neE have "hd E \<in> set E" by simp
  with rowsE have sE: "sum_list (map snd (snd (hd E))) = 1" by (auto simp: case_prod_unfold)
  from neT have "hd T \<in> set T" by simp
  with rowsT have sT: "sum_list (map snd (snd (hd T))) = 1" by (auto simp: case_prod_unfold)
  from E T neE neT sE sT show ?thesis by blast
qed

section \<open>The decoder\<close>

text \<open>The alphabet is the 26 lowercase letters in alphabetic order (ASCII codes 97 to 122).\<close>

lemma letters_alphabetic: "map of_char letters = [97 ..< 123 :: nat]"
  by (simp add: letters_def upt_conv_Cons)

lemma letters_distinct: "distinct letters"
  by (simp add: letters_def)

lemma letters_length: "length letters = 26"
  by (simp add: letters_def)

subsection \<open>Maximum and first argmax of a list\<close>

lemma first_argmax_in_set:
  assumes "xs \<noteq> []"
  shows "first_argmax f xs \<in> set xs"
proof -
  have "Max (f ` set xs) \<in> f ` set xs" using assms by (intro Max_in) auto
  then have "[x \<leftarrow> xs. f x = Max (f ` set xs)] \<noteq> []"
    by (auto simp: filter_empty_conv)
  then have "hd [x \<leftarrow> xs. f x = Max (f ` set xs)] \<in> set [x \<leftarrow> xs. f x = Max (f ` set xs)]"
    by (rule hd_in_set)
  then show ?thesis by (simp add: first_argmax_def)
qed

lemma first_argmax_head:
  assumes "\<forall>y \<in> set xs. f y \<le> f x"
  shows "Max (f ` set (x # xs)) = f x" and "first_argmax f (x # xs) = x"
proof -
  show M: "Max (f ` set (x # xs)) = f x"
    using assms by (intro Max_eqI) auto
  show "first_argmax f (x # xs) = x"
    unfolding first_argmax_def M by simp
qed

lemma first_argmax_tail:
  assumes "y \<in> set xs" and "f x < f y"
  shows "Max (f ` set (x # xs)) = Max (f ` set xs)"
    and "first_argmax f (x # xs) = first_argmax f xs"
proof -
  have ne: "f ` set xs \<noteq> {}" using assms(1) by auto
  have "f y \<le> Max (f ` set xs)" using assms(1) by (intro Max_ge) auto
  with assms(2) have lt: "f x < Max (f ` set xs)" by (rule less_le_trans)
  have "Max (insert (f x) (f ` set xs)) = max (f x) (Max (f ` set xs))"
    using ne by (intro Max_insert) auto
  then show M: "Max (f ` set (x # xs)) = Max (f ` set xs)"
    using lt by (simp add: max_def)
  show "first_argmax f (x # xs) = first_argmax f xs"
    unfolding first_argmax_def M using lt by simp
qed

subsection \<open>A loop that keeps the first strict maximum\<close>

text \<open>
  Both argmax loops of \<open>viterbi\<close> have the same shape. The three lemmas are about any loop
  with that shape on the elements of \<open>ys\<close>; \<open>g\<close> is the finite score of an element.
\<close>

lemma argmax_loop_keep:
  fixes loop :: "'a list \<Rightarrow> score \<times> 'a option \<Rightarrow> error + score \<times> 'a option"
  assumes nil: "\<And>acc. loop [] acc = Inr acc"
    and step: "\<And>x xs mp ps. x \<in> ys \<Longrightarrow>
      loop (x # xs) (mp, ps) =
        (if score_gt (Fin (g x)) mp then loop xs (Fin (g x), Some x) else loop xs (mp, ps))"
  shows "set xs \<subseteq> ys \<Longrightarrow> \<forall>x \<in> set xs. g x \<le> m \<Longrightarrow>
         loop xs (Fin m, Some a) = Inr (Fin m, Some a)"
  by (induction xs) (simp_all add: nil step)

lemma argmax_loop_improve:
  fixes loop :: "'a list \<Rightarrow> score \<times> 'a option \<Rightarrow> error + score \<times> 'a option"
  assumes nil: "\<And>acc. loop [] acc = Inr acc"
    and step: "\<And>x xs mp ps. x \<in> ys \<Longrightarrow>
      loop (x # xs) (mp, ps) =
        (if score_gt (Fin (g x)) mp then loop xs (Fin (g x), Some x) else loop xs (mp, ps))"
  shows "set xs \<subseteq> ys \<Longrightarrow> \<exists>x \<in> set xs. m < g x \<Longrightarrow>
         loop xs (Fin m, Some a) = Inr (Fin (Max (g ` set xs)), Some (first_argmax g xs))"
proof (induction xs arbitrary: m a)
  case Nil
  then show ?case by simp
next
  case (Cons x xs)
  then have x: "x \<in> ys" and sub: "set xs \<subseteq> ys" by auto
  show ?case
  proof (cases "\<exists>y \<in> set xs. max m (g x) < g y")
    case True
    then obtain y where y: "y \<in> set xs" "m < g y" "g x < g y" by auto
    have "loop (x # xs) (Fin m, Some a)
            = Inr (Fin (Max (g ` set xs)), Some (first_argmax g xs))"
      using Cons.IH[OF sub, of m a] Cons.IH[OF sub, of "g x" x] y
      by (auto simp: step[OF x])
    then show ?thesis
      using first_argmax_tail[OF y(1) y(3)] by simp
  next
    case False
    then have le: "\<forall>y \<in> set xs. g y \<le> max m (g x)" by (auto simp: not_less)
    with Cons.prems(2) have gt: "m < g x" by (auto simp: max_def split: if_splits)
    with le have le': "\<forall>y \<in> set xs. g y \<le> g x" by (auto simp: max_def)
    have "loop (x # xs) (Fin m, Some a) = Inr (Fin (g x), Some x)"
      using argmax_loop_keep[of loop ys g xs "g x" x, OF nil step sub le'] gt
      by (simp add: step[OF x])
    then show ?thesis
      using first_argmax_head[of xs g x, OF le'] by simp
  qed
qed

lemma argmax_loop_start:
  fixes loop :: "'a list \<Rightarrow> score \<times> 'a option \<Rightarrow> error + score \<times> 'a option"
  assumes nil: "\<And>acc. loop [] acc = Inr acc"
    and step: "\<And>x xs mp ps. x \<in> ys \<Longrightarrow>
      loop (x # xs) (mp, ps) =
        (if score_gt (Fin (g x)) mp then loop xs (Fin (g x), Some x) else loop xs (mp, ps))"
    and sub: "set xs \<subseteq> ys" and ne: "xs \<noteq> []"
  shows "loop xs (NegInf, None) = Inr (Fin (Max (g ` set xs)), Some (first_argmax g xs))"
proof -
  from ne obtain x xs' where xs: "xs = x # xs'" by (cases xs) auto
  with sub have x: "x \<in> ys" and sub': "set xs' \<subseteq> ys" by auto
  have first: "loop (x # xs') (NegInf, None) = loop xs' (Fin (g x), Some x)"
    by (simp add: step[OF x])
  show ?thesis
  proof (cases "\<exists>y \<in> set xs'. g x < g y")
    case True
    then obtain y where y: "y \<in> set xs'" "g x < g y" by auto
    have "loop xs' (Fin (g x), Some x)
            = Inr (Fin (Max (g ` set xs')), Some (first_argmax g xs'))"
      using argmax_loop_improve[of loop ys g xs' "g x" x, OF nil step sub' True] .
    then show ?thesis
      unfolding xs first using first_argmax_tail[OF y] by simp
  next
    case False
    then have le: "\<forall>y \<in> set xs'. g y \<le> g x" by (auto simp: not_less)
    have "loop xs' (Fin (g x), Some x) = Inr (Fin (g x), Some x)"
      using argmax_loop_keep[of loop ys g xs' "g x" x, OF nil step sub' le] .
    then show ?thesis
      unfolding xs first using first_argmax_head[of xs' g x, OF le] by simp
  qed
qed

subsection \<open>Table lookups and logarithms\<close>

lemma spec_prob_eq: "spec_prob probs a b = get_prob probs a b"
  by (simp add: spec_prob_def get_prob_def)

lemma get_prob_pos: "positive_table probs \<Longrightarrow> 0 < get_prob probs a b"
  by (auto simp: positive_table_def get_prob_def split: option.splits)

lemma math_log_get_prob:
  "positive_table probs \<Longrightarrow> math_log fl (get_prob probs a b) = Inr (fl_log fl (get_prob probs a b))"
  using get_prob_pos[of probs a b] by (simp add: math_log_def)

lemma fold_upd_notin:
  "s \<notin> set ss \<Longrightarrow> fold (\<lambda>s m. m(s \<mapsto> h s)) ss m0 s = m0 s"
  by (induction ss arbitrary: m0) auto

lemma fold_upd_in:
  "s \<in> set ss \<Longrightarrow> fold (\<lambda>s m. m(s \<mapsto> h s)) ss m0 s = Some (h s)"
proof (induction ss arbitrary: m0)
  case Nil
  then show ?case by simp
next
  case (Cons x xs)
  have unroll: "fold (\<lambda>s m. m(s \<mapsto> h s)) (x # xs) m0 s
                  = fold (\<lambda>s m. m(s \<mapsto> h s)) xs (m0(x \<mapsto> h x)) s"
    by simp
  show ?case
  proof (cases "s \<in> set xs")
    case True
    then show ?thesis unfolding unroll by (rule Cons.IH)
  next
    case False
    with Cons.prems have "s = x" by simp
    with fold_upd_notin[OF False, of h "m0(x \<mapsto> h x)"] show ?thesis
      unfolding unroll by simp
  qed
qed

subsection \<open>The loops of \<open>viterbi\<close>\<close>

text \<open>The first column holds the initial scores, and each letter's path is the letter.\<close>

lemma init_loop_eq:
  assumes "typed \<noteq> []" and "positive_table transition_probs" and "positive_table emission_probs"
  shows "init_loop fl typed transition_probs emission_probs ss ([V0], path)
     = Inr ([fold (\<lambda>s m. m(s \<mapsto> Fin (spec_score fl transition_probs emission_probs typed 0 s))) ss V0],
            fold (\<lambda>s m. m(s \<mapsto> [s])) ss path)"
proof (induction ss arbitrary: V0 path)
  case Nil
  show ?case by simp
next
  case (Cons s ss)
  have "getitem typed 0 = Inr (typed ! 0)" using assms(1) by (simp add: getitem_def)
  then show ?case
    using Cons.IH
    by (simp add: math_log_get_prob[OF assms(2)] math_log_get_prob[OF assms(3)]
        getitem_def spec_prob_eq)
qed

text \<open>One step of the loop over the previous letter, when the previous column is finite.\<close>

lemma prev_loop_step:
  assumes "positive_table transition_probs" and "positive_table emission_probs"
    and "t < length typed" and "t - 1 < length V"
    and "(V ! (t - 1)) s0 = Some (Fin (f s0))"
  shows "prev_loop fl V typed transition_probs emission_probs t s (s0 # rest) (mp, ps) =
     (if score_gt (Fin (fl_add fl (fl_add fl (f s0) (fl_log fl (get_prob transition_probs s0 s)))
                        (fl_log fl (get_prob emission_probs s (typed ! t))))) mp
      then prev_loop fl V typed transition_probs emission_probs t s rest
             (Fin (fl_add fl (fl_add fl (f s0) (fl_log fl (get_prob transition_probs s0 s)))
                   (fl_log fl (get_prob emission_probs s (typed ! t)))), Some s0)
      else prev_loop fl V typed transition_probs emission_probs t s rest (mp, ps))"
  using assms(3-5)
  by (simp add: math_log_get_prob[OF assms(1)] math_log_get_prob[OF assms(2)]
      getitem_def get_score_def)

lemma prev_loop_eq:
  assumes "positive_table transition_probs" and "positive_table emission_probs"
    and "t < length typed" and "t - 1 < length V"
    and "\<forall>s0 \<in> set letters. (V ! (t - 1)) s0 = Some (Fin (f s0))"
  shows "prev_loop fl V typed transition_probs emission_probs t s letters (NegInf, None) =
     Inr (Fin (Max ((\<lambda>s0. fl_add fl (fl_add fl (f s0) (fl_log fl (get_prob transition_probs s0 s)))
                           (fl_log fl (get_prob emission_probs s (typed ! t)))) ` set letters)),
          Some (first_argmax (\<lambda>s0. fl_add fl (fl_add fl (f s0) (fl_log fl (get_prob transition_probs s0 s)))
                           (fl_log fl (get_prob emission_probs s (typed ! t)))) letters))"
proof (rule argmax_loop_start[where ys = "set letters"])
  show "prev_loop fl V typed transition_probs emission_probs t s [] acc = Inr acc" for acc
    by (cases acc) simp
  show "prev_loop fl V typed transition_probs emission_probs t s (x # xs) (mp, ps) =
     (if score_gt (Fin (fl_add fl (fl_add fl (f x) (fl_log fl (get_prob transition_probs x s)))
                        (fl_log fl (get_prob emission_probs s (typed ! t))))) mp
      then prev_loop fl V typed transition_probs emission_probs t s xs
             (Fin (fl_add fl (fl_add fl (f x) (fl_log fl (get_prob transition_probs x s)))
                   (fl_log fl (get_prob emission_probs s (typed ! t)))), Some x)
      else prev_loop fl V typed transition_probs emission_probs t s xs (mp, ps))"
    if "x \<in> set letters" for x xs mp ps
    using assms(5) that by (intro prev_loop_step[OF assms(1-4)]) blast
  show "set letters \<subseteq> set letters" by simp
  show "letters \<noteq> []" by (simp add: letters_def)
qed

text \<open>
  The loop over the letters at position \<open>t\<close>: column \<open>t\<close> receives the maximum over the
  previous letters, and the new path extends the path of the first argmax.
\<close>

lemma state_loop_eq:
  assumes pos: "positive_table transition_probs" "positive_table emission_probs"
    and t: "0 < t" "t < length typed"
    and path: "\<forall>s0 \<in> set letters. path s0 = Some (pth s0)"
  shows "length V = Suc t \<Longrightarrow>
     \<forall>s0 \<in> set letters. (V ! (t - 1)) s0 = Some (Fin (f s0)) \<Longrightarrow>
     state_loop fl typed transition_probs emission_probs t path ss (V, newpath) =
       Inr (V[t := fold (\<lambda>s m. m(s \<mapsto> Fin (Max ((\<lambda>s0. fl_add fl (fl_add fl (f s0) (fl_log fl (get_prob transition_probs s0 s)))
                              (fl_log fl (get_prob emission_probs s (typed ! t)))) ` set letters)))) ss (V ! t)],
            fold (\<lambda>s m. m(s \<mapsto> pth (first_argmax (\<lambda>s0. fl_add fl (fl_add fl (f s0) (fl_log fl (get_prob transition_probs s0 s)))
                              (fl_log fl (get_prob emission_probs s (typed ! t)))) letters) @ [s])) ss newpath)"
proof (induction ss arbitrary: V newpath)
  case Nil
  then show ?case by simp
next
  case (Cons s ss)
  let ?g = "\<lambda>s0. fl_add fl (fl_add fl (f s0) (fl_log fl (get_prob transition_probs s0 s)))
                (fl_log fl (get_prob emission_probs s (typed ! t)))"
  let ?V1 = "V[t := (V ! t)(s \<mapsto> Fin (Max (?g ` set letters)))]"
  have lt: "t - 1 < length V" using Cons.prems(1) by simp
  have prev: "prev_loop fl V typed transition_probs emission_probs t s letters (NegInf, None)
                = Inr (Fin (Max (?g ` set letters)), Some (first_argmax ?g letters))"
    by (rule prev_loop_eq[OF pos t(2) lt Cons.prems(2)])
  have "first_argmax ?g letters \<in> set letters"
    by (rule first_argmax_in_set) (simp add: letters_def)
  with path have look: "path (first_argmax ?g letters) = Some (pth (first_argmax ?g letters))"
    by blast
  have len1: "length ?V1 = Suc t" using Cons.prems(1) by simp
  have col1: "\<forall>s0 \<in> set letters. (?V1 ! (t - 1)) s0 = Some (Fin (f s0))"
    using Cons.prems(2) t(1) by simp
  have at: "?V1 ! t = (V ! t)(s \<mapsto> Fin (Max (?g ` set letters)))"
    using Cons.prems(1) by simp
  have "state_loop fl typed transition_probs emission_probs t path (s # ss) (V, newpath)
      = state_loop fl typed transition_probs emission_probs t path ss
          (?V1, newpath(s \<mapsto> pth (first_argmax ?g letters) @ [s]))"
    using Cons.prems(1) by (simp add: prev look getitem_def)
  also note Cons.IH[OF len1 col1]
  finally show ?case unfolding at by simp
qed

text \<open>The invariant of the loop over the positions, stated for the state before position \<open>t\<close>.\<close>

lemma time_loop_eq:
  assumes pos: "positive_table transition_probs" "positive_table emission_probs"
  shows "0 < t \<Longrightarrow> t \<le> length typed \<Longrightarrow> length V = t \<Longrightarrow>
     \<forall>i < t. \<forall>s \<in> set letters.
        (V ! i) s = Some (Fin (spec_score fl transition_probs emission_probs typed i s)) \<Longrightarrow>
     \<forall>s \<in> set letters. path s = Some (spec_path fl transition_probs emission_probs typed (t - 1) s) \<Longrightarrow>
     \<exists>V' path'.
        time_loop fl typed transition_probs emission_probs [t..<length typed] (V, path) = Inr (V', path')
        \<and> length V' = length typed
        \<and> (\<forall>i < length typed. \<forall>s \<in> set letters.
              (V' ! i) s = Some (Fin (spec_score fl transition_probs emission_probs typed i s)))
        \<and> (\<forall>s \<in> set letters.
              path' s = Some (spec_path fl transition_probs emission_probs typed (length typed - 1) s))"
proof (induction "length typed - t" arbitrary: t V path)
  case 0
  then have "t = length typed" by simp
  with "0.prems" show ?case by simp
next
  case (Suc k)
  let ?bs = "spec_score fl transition_probs emission_probs typed"
  let ?bp = "spec_path fl transition_probs emission_probs typed"
  let ?G = "\<lambda>s s0. fl_add fl (fl_add fl (?bs (t - 1) s0) (fl_log fl (get_prob transition_probs s0 s)))
                  (fl_log fl (get_prob emission_probs s (typed ! t)))"
  let ?W = "V @ [Map.empty]"
  let ?V1 = "?W[t := fold (\<lambda>s m. m(s \<mapsto> Fin (Max (?G s ` set letters)))) letters (?W ! t)]"
  let ?p1 = "fold (\<lambda>s m. m(s \<mapsto> ?bp (t - 1) (first_argmax (?G s) letters) @ [s])) letters Map.empty"
  from Suc.hyps(2) have tlt: "t < length typed" by simp
  obtain u where u: "t = Suc u" using Suc.prems(1) by (cases t) auto
  have lenW: "length ?W = Suc t" using Suc.prems(3) by simp
  have colW: "\<forall>s0 \<in> set letters. (?W ! (t - 1)) s0 = Some (Fin (?bs (t - 1) s0))"
    using Suc.prems(1,3,4) by (simp add: nth_append)
  have st: "state_loop fl typed transition_probs emission_probs t path letters (?W, Map.empty)
              = Inr (?V1, ?p1)"
    by (rule state_loop_eq[OF pos Suc.prems(1) tlt Suc.prems(5) lenW colW])
  have unroll: "[t..<length typed] = t # [Suc t..<length typed]"
    using tlt by (rule upt_conv_Cons)
  have step: "time_loop fl typed transition_probs emission_probs [t..<length typed] (V, path)
      = time_loop fl typed transition_probs emission_probs [Suc t..<length typed] (?V1, ?p1)"
    unfolding unroll by (simp add: st)
  have len1: "length ?V1 = Suc t" using lenW by simp
  have bs_t: "?bs t s = Max (?G s ` set letters)" for s
    unfolding u by (simp add: spec_prob_eq)
  have bp_t: "?bp t s = ?bp (t - 1) (first_argmax (?G s) letters) @ [s]" for s
    unfolding u by (simp add: spec_prob_eq)
  have col1: "\<forall>i < Suc t. \<forall>s \<in> set letters. (?V1 ! i) s = Some (Fin (?bs i s))"
  proof (intro allI impI ballI)
    fix i s assume i: "i < Suc t" and s: "s \<in> set letters"
    show "(?V1 ! i) s = Some (Fin (?bs i s))"
    proof (cases "i = t")
      case True
      have "fold (\<lambda>s m. m(s \<mapsto> Fin (Max (?G s ` set letters)))) letters (?W ! t) s
              = Some (Fin (Max (?G s ` set letters)))"
        by (rule fold_upd_in[OF s])
      then show ?thesis using lenW True by (simp add: bs_t)
    next
      case False
      with i have "i < t" by simp
      then show ?thesis using Suc.prems(3,4) s False by (simp add: nth_append)
    qed
  qed
  have path1: "\<forall>s \<in> set letters. ?p1 s = Some (?bp (Suc t - 1) s)"
  proof
    fix s assume s: "s \<in> set letters"
    have "?p1 s = Some (?bp (t - 1) (first_argmax (?G s) letters) @ [s])"
      by (rule fold_upd_in[OF s])
    then show "?p1 s = Some (?bp (Suc t - 1) s)" by (simp add: bp_t)
  qed
  have k: "k = length typed - Suc t" using Suc.hyps(2) by simp
  have le: "Suc t \<le> length typed" using tlt by simp
  from Suc.hyps(1)[OF k _ le len1 col1 path1] show ?case
    unfolding step by simp
qed

text \<open>The choice of the last letter, when the last column is finite.\<close>

lemma final_loop_eq:
  assumes "positive_table transition_probs"
    and "length typed - 1 < length V"
    and "\<forall>s \<in> set letters. (V ! (length typed - 1)) s = Some (Fin (f s))"
  shows "final_loop fl V typed transition_probs letters (NegInf, None) =
     Inr (Fin (Max ((\<lambda>s. fl_add fl (f s) (fl_log fl (get_prob transition_probs s (CHR ''$'')))) ` set letters)),
          Some (first_argmax (\<lambda>s. fl_add fl (f s) (fl_log fl (get_prob transition_probs s (CHR ''$'')))) letters))"
proof (rule argmax_loop_start[where ys = "set letters"])
  show "final_loop fl V typed transition_probs [] acc = Inr acc" for acc
    by (cases acc) simp
  show "final_loop fl V typed transition_probs (x # xs) (mp, ps) =
     (if score_gt (Fin (fl_add fl (f x) (fl_log fl (get_prob transition_probs x (CHR ''$''))))) mp
      then final_loop fl V typed transition_probs xs
             (Fin (fl_add fl (f x) (fl_log fl (get_prob transition_probs x (CHR ''$'')))), Some x)
      else final_loop fl V typed transition_probs xs (mp, ps))"
    if "x \<in> set letters" for x xs mp ps
    using assms(2,3) that
    by (simp add: math_log_get_prob[OF assms(1)] getitem_def get_score_def)
  show "set letters \<subseteq> set letters" by simp
  show "letters \<noteq> []" by (simp add: letters_def)
qed

subsection \<open>The whole search\<close>

lemma spec_path_length:
  "length (spec_path fl transitions emissions observed t s) = Suc t"
  by (induction t arbitrary: s) simp_all

lemma spec_path_letters:
  "s \<in> set letters \<Longrightarrow> set (spec_path fl transitions emissions observed t s) \<subseteq> set letters"
proof (induction t arbitrary: s)
  case 0
  then show ?case by simp
next
  case (Suc t)
  have "first_argmax (\<lambda>s0. fl_add fl (fl_add fl (spec_score fl transitions emissions observed t s0)
            (fl_log fl (spec_prob transitions s0 s)))
            (fl_log fl (spec_prob emissions s (observed ! Suc t)))) letters \<in> set letters"
    by (rule first_argmax_in_set) (simp add: letters_def)
  from Suc.IH[OF this] Suc.prems show ?case by simp
qed

text \<open>
  For a non-empty word and tables of positive probabilities the search returns: the
  trellis holds the scores of the specification, the paths are the recorded paths of the
  last position, and \<^verbatim>\<open>best_state\<close> is the first letter with the best final score.
\<close>

lemma viterbi_search_eq:
  assumes ne: "typed \<noteq> []"
    and pos: "positive_table transition_probs" "positive_table emission_probs"
  shows "\<exists>V path.
     viterbi_search fl typed transition_probs emission_probs =
       Inr (V, path,
            Some (first_argmax
                    (\<lambda>s. fl_add fl (spec_score fl transition_probs emission_probs typed (length typed - 1) s)
                         (fl_log fl (spec_prob transition_probs s (CHR ''$'')))) letters))
     \<and> length V = length typed
     \<and> (\<forall>i < length typed. \<forall>s \<in> set letters.
           (V ! i) s = Some (Fin (spec_score fl transition_probs emission_probs typed i s)))
     \<and> (\<forall>s \<in> set letters.
           path s = Some (spec_path fl transition_probs emission_probs typed (length typed - 1) s))"
proof -
  let ?bs = "spec_score fl transition_probs emission_probs typed"
  let ?bp = "spec_path fl transition_probs emission_probs typed"
  let ?V0 = "[fold (\<lambda>s m. m(s \<mapsto> Fin (?bs 0 s))) letters Map.empty]"
  let ?p0 = "fold (\<lambda>s m. m(s \<mapsto> [s])) letters Map.empty"
  have init: "init_loop fl typed transition_probs emission_probs letters ([Map.empty], Map.empty)
                = Inr (?V0, ?p0)"
    by (rule init_loop_eq[OF ne pos])
  have col0: "\<forall>i < 1. \<forall>s \<in> set letters. (?V0 ! i) s = Some (Fin (?bs i s))"
  proof (intro allI impI ballI)
    fix i :: nat and s assume "i < 1" and s: "s \<in> set letters"
    then have "i = 0" by simp
    moreover have "fold (\<lambda>s m. m(s \<mapsto> Fin (?bs 0 s))) letters Map.empty s = Some (Fin (?bs 0 s))"
      by (rule fold_upd_in[OF s])
    ultimately show "(?V0 ! i) s = Some (Fin (?bs i s))" by simp
  qed
  have path0: "\<forall>s \<in> set letters. ?p0 s = Some (?bp (1 - 1) s)"
  proof
    fix s assume s: "s \<in> set letters"
    have "?p0 s = Some [s]" by (rule fold_upd_in[OF s])
    then show "?p0 s = Some (?bp (1 - 1) s)" by simp
  qed
  have le: "1 \<le> length typed" using ne by (cases typed) auto
  from time_loop_eq[OF pos _ le _ col0 path0]
  obtain V path where
    loop: "time_loop fl typed transition_probs emission_probs [1..<length typed] (?V0, ?p0)
             = Inr (V, path)"
    and len: "length V = length typed"
    and col: "\<forall>i < length typed. \<forall>s \<in> set letters. (V ! i) s = Some (Fin (?bs i s))"
    and path: "\<forall>s \<in> set letters. path s = Some (?bp (length typed - 1) s)"
    by auto
  have last: "length typed - 1 < length V" using len ne by simp
  have lastcol: "\<forall>s \<in> set letters. (V ! (length typed - 1)) s
                   = Some (Fin (?bs (length typed - 1) s))"
    using col ne by simp
  have "viterbi_search fl typed transition_probs emission_probs =
       Inr (V, path,
            Some (first_argmax
                    (\<lambda>s. fl_add fl (?bs (length typed - 1) s)
                         (fl_log fl (spec_prob transition_probs s (CHR ''$'')))) letters))"
    using init loop final_loop_eq[OF pos(1) last lastcol]
    by (simp add: viterbi_search_def spec_prob_eq)
  with len col path show ?thesis by blast
qed

text \<open>
  C1. For a non-empty observed word and tables of the data model (every stored
  probability positive), \<open>viterbi\<close> returns, without raising, the letter sequence of the
  specification's dynamic program \<open>spec_decode\<close>: initial scores
  \<open>log P(s | ^) + log P(observed[0] | s)\<close>, the maximum over the previous letters at every
  later position, the path of the letter with the best final score plus
  \<open>log P($ | s)\<close>, the floor \<open>1e-6\<close> for every missing entry, and every tie won by the first
  letter of the alphabet that attains the maximum. This holds for every rounding of
  \<^verbatim>\<open>math.log\<close> and \<^verbatim>\<open>+\<close>: the operations \<open>fl\<close> are arbitrary, and the specification's
  scores are computed with the same operations.
\<close>

theorem viterbi_is_spec_decode:
  assumes "typed \<noteq> []"
    and "positive_table transition_probs" and "positive_table emission_probs"
  shows "viterbi fl typed transition_probs emission_probs
           = Inr (spec_decode fl typed transition_probs emission_probs)"
proof -
  let ?b = "first_argmax
              (\<lambda>s. fl_add fl (spec_score fl transition_probs emission_probs typed (length typed - 1) s)
                   (fl_log fl (spec_prob transition_probs s (CHR ''$'')))) letters"
  from viterbi_search_eq[OF assms] obtain V path where
    search: "viterbi_search fl typed transition_probs emission_probs = Inr (V, path, Some ?b)"
    and path: "\<forall>s \<in> set letters.
       path s = Some (spec_path fl transition_probs emission_probs typed (length typed - 1) s)"
    by blast
  have "?b \<in> set letters" by (rule first_argmax_in_set) (simp add: letters_def)
  with path have "path ?b
      = Some (spec_path fl transition_probs emission_probs typed (length typed - 1) ?b)"
    by blast
  then show ?thesis by (simp add: viterbi_def search spec_decode_def)
qed

theorem viterbi_is_spec_decode_witness:
  "''cat'' \<noteq> []
   \<and> positive_table [CHR ''^'' \<mapsto> [CHR ''c'' \<mapsto> 1], CHR ''c'' \<mapsto> [CHR ''a'' \<mapsto> 1]]
   \<and> positive_table [CHR ''c'' \<mapsto> [CHR ''c'' \<mapsto> 1 / 2, CHR ''k'' \<mapsto> 1 / 2]]
   \<and> viterbi exact_ops ''cat'' [CHR ''^'' \<mapsto> [CHR ''c'' \<mapsto> 1], CHR ''c'' \<mapsto> [CHR ''a'' \<mapsto> 1]]
        [CHR ''c'' \<mapsto> [CHR ''c'' \<mapsto> 1 / 2, CHR ''k'' \<mapsto> 1 / 2]]
      = Inr (spec_decode exact_ops ''cat'' [CHR ''^'' \<mapsto> [CHR ''c'' \<mapsto> 1], CHR ''c'' \<mapsto> [CHR ''a'' \<mapsto> 1]]
               [CHR ''c'' \<mapsto> [CHR ''c'' \<mapsto> 1 / 2, CHR ''k'' \<mapsto> 1 / 2]])"
proof -
  have h1: "''cat'' \<noteq> []" by simp
  have h2: "positive_table [CHR ''^'' \<mapsto> [CHR ''c'' \<mapsto> 1], CHR ''c'' \<mapsto> [CHR ''a'' \<mapsto> 1]]"
    by (auto simp: positive_table_def split: if_splits)
  have h3: "positive_table [CHR ''c'' \<mapsto> [CHR ''c'' \<mapsto> 1 / 2, CHR ''k'' \<mapsto> 1 / 2]]"
    by (auto simp: positive_table_def split: if_splits)
  from viterbi_is_spec_decode[OF h1 h2 h3, of exact_ops] h1 h2 h3 show ?thesis by blast
qed

text \<open>
  C2, as the code has it. The empty word is the counterexample: \<^verbatim>\<open>typed[0]\<close> raises, so
  nothing of length \<open>0\<close> is returned.
\<close>

theorem viterbi_same_length_counterexample:
  "\<not> (\<exists>fl r. viterbi fl [] Map.empty Map.empty = Inr r \<and> length r = length ([] :: string))"
  by (simp add: viterbi_def viterbi_search_def letters_def getitem_def)

text \<open>
  C2, amended. For every non-empty observed word (and tables of positive probabilities)
  \<open>viterbi\<close> returns a string of the length of its input, and every character of it is
  one of the 26 lowercase letters.
\<close>

theorem viterbi_same_length:
  assumes "typed \<noteq> []"
    and "positive_table transition_probs" and "positive_table emission_probs"
  shows "\<exists>r. viterbi fl typed transition_probs emission_probs = Inr r
           \<and> length r = length typed \<and> set r \<subseteq> set letters"
proof -
  let ?b = "first_argmax
              (\<lambda>s. fl_add fl (spec_score fl transition_probs emission_probs typed (length typed - 1) s)
                   (fl_log fl (spec_prob transition_probs s (CHR ''$'')))) letters"
  let ?r = "spec_path fl transition_probs emission_probs typed (length typed - 1) ?b"
  from viterbi_search_eq[OF assms] obtain V path where
    search: "viterbi_search fl typed transition_probs emission_probs = Inr (V, path, Some ?b)"
    and path: "\<forall>s \<in> set letters.
       path s = Some (spec_path fl transition_probs emission_probs typed (length typed - 1) s)"
    by blast
  have b: "?b \<in> set letters" by (rule first_argmax_in_set) (simp add: letters_def)
  with path have "path ?b = Some ?r" by blast
  then have "viterbi fl typed transition_probs emission_probs = Inr ?r"
    by (simp add: viterbi_def search)
  moreover have "length ?r = length typed"
    using assms(1) by (simp add: spec_path_length)
  moreover have "set ?r \<subseteq> set letters"
    using b by (rule spec_path_letters)
  ultimately show ?thesis by blast
qed

theorem viterbi_same_length_witness:
  "''teh'' \<noteq> []
   \<and> positive_table [CHR ''t'' \<mapsto> [CHR ''h'' \<mapsto> 1]]
   \<and> positive_table [CHR ''e'' \<mapsto> [CHR ''e'' \<mapsto> 3 / 4, CHR ''h'' \<mapsto> 1 / 4]]
   \<and> (\<exists>r. viterbi exact_ops ''teh'' [CHR ''t'' \<mapsto> [CHR ''h'' \<mapsto> 1]]
              [CHR ''e'' \<mapsto> [CHR ''e'' \<mapsto> 3 / 4, CHR ''h'' \<mapsto> 1 / 4]] = Inr r
          \<and> length r = length ''teh'' \<and> set r \<subseteq> set letters)"
proof -
  have h1: "''teh'' \<noteq> []" by simp
  have h2: "positive_table [CHR ''t'' \<mapsto> [CHR ''h'' \<mapsto> 1]]"
    by (auto simp: positive_table_def split: if_splits)
  have h3: "positive_table [CHR ''e'' \<mapsto> [CHR ''e'' \<mapsto> 3 / 4, CHR ''h'' \<mapsto> 1 / 4]]"
    by (auto simp: positive_table_def split: if_splits)
  from viterbi_same_length[OF h1 h2 h3, of exact_ops] h1 h2 h3 show ?thesis by simp
qed

text \<open>
  C3, as the code has it. There is no guard: on the empty word the result is not the
  empty string, here with the tables trained on the single pair \<open>(cat, cat)\<close>.
\<close>

theorem viterbi_empty_word_counterexample:
  "\<not> (\<exists>fl. viterbi fl []
     [CHR ''^'' \<mapsto> [CHR ''c'' \<mapsto> 1], CHR ''c'' \<mapsto> [CHR ''a'' \<mapsto> 1],
               CHR ''a'' \<mapsto> [CHR ''t'' \<mapsto> 1], CHR ''t'' \<mapsto> [CHR ''$'' \<mapsto> 1]]
     [CHR ''c'' \<mapsto> [CHR ''c'' \<mapsto> 1], CHR ''a'' \<mapsto> [CHR ''a'' \<mapsto> 1], CHR ''t'' \<mapsto> [CHR ''t'' \<mapsto> 1]]
   = Inr [])"
  by (simp add: viterbi_def viterbi_search_def letters_def getitem_def)

text \<open>
  C3, amended. On the zero-length observed word \<open>viterbi\<close> is not guarded: for any tables
  the first iteration of the initialisation evaluates \<^verbatim>\<open>typed[0]\<close> and raises
  \<^verbatim>\<open>IndexError\<close>.
\<close>

theorem viterbi_empty_word_raises:
  "viterbi fl [] transition_probs emission_probs = Inl IndexError"
  by (simp add: viterbi_def viterbi_search_def letters_def getitem_def)

text \<open>
  C9. For a non-empty observed word and tables of the data model (every stored
  probability positive), the search returns with a score \<open>Fin x\<close>, never \<open>NegInf\<close>, for
  every position and letter, and with a chosen \<^verbatim>\<open>best_state\<close>: the branch
  \<^verbatim>\<open>best_state is None\<close> is not taken.
\<close>

theorem viterbi_scores_finite:
  assumes "typed \<noteq> []"
    and "positive_table transition_probs" and "positive_table emission_probs"
  shows "\<exists>V path b.
     viterbi_search fl typed transition_probs emission_probs = Inr (V, path, Some b)
     \<and> length V = length typed
     \<and> (\<forall>t < length typed. \<forall>s \<in> set letters. \<exists>x. (V ! t) s = Some (Fin x))"
proof -
  from viterbi_search_eq[OF assms] obtain V path b where
    "viterbi_search fl typed transition_probs emission_probs = Inr (V, path, Some b)"
    and "length V = length typed"
    and col: "\<forall>i < length typed. \<forall>s \<in> set letters.
       (V ! i) s = Some (Fin (spec_score fl transition_probs emission_probs typed i s))"
    by blast
  moreover from col
  have "\<forall>t < length typed. \<forall>s \<in> set letters. \<exists>x. (V ! t) s = Some (Fin x)"
    by blast
  ultimately show ?thesis by blast
qed

theorem viterbi_scores_finite_witness:
  "''ab'' \<noteq> []
   \<and> positive_table [CHR ''a'' \<mapsto> [CHR ''b'' \<mapsto> 1 / 3, CHR ''$'' \<mapsto> 2 / 3]]
   \<and> positive_table (Map.empty :: table)
   \<and> (\<exists>V path b. viterbi_search exact_ops ''ab'' [CHR ''a'' \<mapsto> [CHR ''b'' \<mapsto> 1 / 3, CHR ''$'' \<mapsto> 2 / 3]] Map.empty
                     = Inr (V, path, Some b)
          \<and> length V = 2)"
proof -
  have h1: "''ab'' \<noteq> []" by simp
  have h2: "positive_table [CHR ''a'' \<mapsto> [CHR ''b'' \<mapsto> 1 / 3, CHR ''$'' \<mapsto> 2 / 3]]"
    by (auto simp: positive_table_def split: if_splits)
  have h3: "positive_table (Map.empty :: table)"
    by (simp add: positive_table_def)
  from viterbi_scores_finite[OF h1 h2 h3, of exact_ops] h1 h2 h3 show ?thesis by auto
qed

subsection \<open>The decoder on trained tables\<close>

text \<open>
  The tables the trainer builds satisfy the decoder's precondition, so on them the
  decoder returns the specification's letter sequence for every non-empty word.
\<close>

lemma spec_normalize_positive: "positive_table (spec_normalize cnt)"
  unfolding positive_table_def
proof (intro allI impI)
  fix a row b p
  assume row: "spec_normalize cnt a = Some row" and p: "row b = Some p"
  from row have nz: "spec_row_total cnt a \<noteq> 0"
    and row_eq: "row = (\<lambda>b. if cnt a b = 0 then None
                        else Some (real (cnt a b) / real (spec_row_total cnt a)))"
    by (auto simp: spec_normalize_def split: if_splits)
  from p have "cnt a b \<noteq> 0" and "p = real (cnt a b) / real (spec_row_total cnt a)"
    unfolding row_eq by (auto split: if_splits)
  with nz show "0 < p" by simp
qed

lemma trained_tables_positive:
  assumes "compute_transitions pairs = Inr T" and "compute_emissions pairs = Inr E"
  shows "positive_table (table_of T)" and "positive_table (table_of E)"
proof -
  from compute_transitions_eq[of pairs] assms(1)
  obtain d where "T = map (\<lambda>(a, row). (a, normalized row)) d" and "counts_ok d"
    and "\<And>x y. count_of d x y = int (spec_transition_count pairs x y)"
    by auto
  then have "table_of T = spec_normalize (spec_transition_count pairs)"
    using trained_table[of d "spec_transition_count pairs"] by simp
  then show "positive_table (table_of T)" by (simp add: spec_normalize_positive)
  from compute_emissions_eq[of pairs] assms(2)
  obtain d where "E = map (\<lambda>(a, row). (a, normalized row)) d" and "counts_ok d"
    and "\<And>x y. count_of d x y = int (spec_emission_count pairs x y)"
    by auto
  then have "table_of E = spec_normalize (spec_emission_count pairs)"
    using trained_table[of d "spec_emission_count pairs"] by simp
  then show "positive_table (table_of E)" by (simp add: spec_normalize_positive)
qed

lemma viterbi_on_trained_tables:
  assumes "compute_transitions pairs = Inr T" and "compute_emissions pairs = Inr E"
    and "typed \<noteq> []"
  shows "viterbi fl typed (table_of T) (table_of E)
           = Inr (spec_decode fl typed (table_of T) (table_of E))"
proof -
  let ?b = "first_argmax
              (\<lambda>s. fl_add fl (spec_score fl (table_of T) (table_of E) typed (length typed - 1) s)
                   (fl_log fl (spec_prob (table_of T) s (CHR ''$'')))) letters"
  from viterbi_search_eq[OF assms(3) trained_tables_positive[OF assms(1,2)]]
  obtain V path where
    search: "viterbi_search fl typed (table_of T) (table_of E) = Inr (V, path, Some ?b)"
    and path: "\<forall>s \<in> set letters.
       path s = Some (spec_path fl (table_of T) (table_of E) typed (length typed - 1) s)"
    by blast
  have "?b \<in> set letters" by (rule first_argmax_in_set) (simp add: letters_def)
  with path have "path ?b
      = Some (spec_path fl (table_of T) (table_of E) typed (length typed - 1) ?b)"
    by blast
  then show ?thesis by (simp add: viterbi_def search spec_decode_def)
qed

subsection \<open>Rounding decides a tie\<close>

text \<open>
  Decoding \<open>ab\<close> with the tables trained on \<open>(bab, a)\<close>. The final scores of \<open>a\<close> and \<open>b\<close>
  are the same three logarithms added in two different orders. Without rounding they
  are equal and the first letter wins: \<open>ba\<close>. With the sums rounded as doubles the
  score of \<open>b\<close> is larger by one unit in the last place, and the result is \<open>bb\<close>. This is
  why the operations are parameters of the model, and why the specification's program
  is evaluated with the same operations, in the order in which it writes its sums.
\<close>

lemma example_trained:
  "compute_transitions [(''bab'', ''a'')]
     = Inr [(CHR ''^'', [(CHR ''b'', 1)]),
            (CHR ''b'', [(CHR ''a'', 1 / 2), (CHR ''$'', 1 / 2)]),
            (CHR ''a'', [(CHR ''b'', 1)])]"
  "compute_emissions [(''bab'', ''a'')] = Inr [(CHR ''b'', [(CHR ''a'', 1)])]"
  by (simp_all add: compute_transitions_def compute_emissions_def count_pair_def getitem_def
      upt_conv_Cons)

lemma first_argmax_at:
  assumes xs: "xs = pre @ x # post"
    and pre: "\<forall>y \<in> set pre. f y < f x" and post: "\<forall>y \<in> set post. f y \<le> f x"
  shows "Max (f ` set xs) = f x" and "first_argmax f xs = x"
proof -
  show M: "Max (f ` set xs) = f x"
    unfolding xs using pre post by (intro Max_eqI) (auto dest: less_imp_le)
  have "[y \<leftarrow> pre. f y = f x] = []" using pre by (auto simp: filter_empty_conv)
  then show "first_argmax f xs = x"
    unfolding first_argmax_def M unfolding xs by simp
qed

lemma letters_not_sentinel: "s \<in> set letters \<Longrightarrow> s \<noteq> CHR ''^'' \<and> s \<noteq> CHR ''$''"
  by (auto simp: letters_def)

lemma letters_split_a: "letters = [] @ CHR ''a'' # ''bcdefghijklmnopqrstuvwxyz''"
  by (simp add: letters_def)

lemma letters_split_b: "letters = ''a'' @ CHR ''b'' # ''cdefghijklmnopqrstuvwxyz''"
  by (simp add: letters_def)

lemma example_probs:
  "spec_prob example_transitions (CHR ''^'') s = (if s = CHR ''b'' then 1 else 1 / 1000000)"
  "spec_prob example_emissions s (CHR ''a'') = (if s = CHR ''b'' then 1 else 1 / 1000000)"
  "spec_prob example_emissions s (CHR ''b'') = 1 / 1000000"
  "s0 \<noteq> CHR ''^'' \<Longrightarrow> spec_prob example_transitions s0 s =
     (if s0 = CHR ''b'' \<and> (s = CHR ''a'' \<or> s = CHR ''$'') then 1 / 2
      else if s0 = CHR ''a'' \<and> s = CHR ''b'' then 1 else 1 / 1000000)"
  by (auto simp: spec_prob_def example_transitions_def example_emissions_def table_of_def)


lemma example_decode:
  fixes fl :: float_ops
  defines "ad \<equiv> fl_add fl"
    and "z \<equiv> fl_log fl 1" and "lh \<equiv> fl_log fl (1 / 2)" and "L \<equiv> fl_log fl (1 / 1000000)"
  defines "A1 \<equiv> ad (ad (ad z z) lh) L" and "A2 \<equiv> ad (ad (ad z z) L) L"
    and "B1 \<equiv> ad (ad (ad L L) z) L" and "B2 \<equiv> ad (ad (ad L L) L) L"
  assumes prev: "B2 < A1" "B2 < A2" "B1 < A2"
  shows "ad A1 L < ad A2 lh \<Longrightarrow> ad A2 L \<le> ad A2 lh \<Longrightarrow>
           viterbi fl ''ab'' example_transitions example_emissions = Inr ''bb''"
    and "ad A2 lh \<le> ad A1 L \<Longrightarrow> ad A2 L \<le> ad A1 L \<Longrightarrow>
           viterbi fl ''ab'' example_transitions example_emissions = Inr ''ba''"
proof -
  let ?T = example_transitions and ?E = example_emissions
  let ?G = "\<lambda>s s0. fl_add fl (fl_add fl (spec_score fl ?T ?E ''ab'' 0 s0)
                           (fl_log fl (spec_prob ?T s0 s)))
                 (fl_log fl (spec_prob ?E s (''ab'' ! Suc 0)))"
  let ?H = "\<lambda>s. fl_add fl (spec_score fl ?T ?E ''ab'' (length ''ab'' - 1) s)
                 (fl_log fl (spec_prob ?T s (CHR ''$'')))"
  have first: "spec_score fl ?T ?E ''ab'' 0 s = (if s = CHR ''b'' then ad z z else ad L L)" for s
    by (simp add: example_probs ad_def z_def L_def)
  have G: "?G s s0 = (if s0 = CHR ''b'' then (if s = CHR ''a'' then A1 else A2)
                      else if s0 = CHR ''a'' \<and> s = CHR ''b'' then B1 else B2)"
    if "s \<in> set letters" "s0 \<in> set letters" for s s0
    using letters_not_sentinel[OF that(1)] letters_not_sentinel[OF that(2)]
    by (simp add: first example_probs ad_def z_def L_def lh_def A1_def A2_def B1_def B2_def)
  have step: "Max (?G s ` set letters) = (if s = CHR ''a'' then A1 else A2)"
    "first_argmax (?G s) letters = CHR ''b''" if s: "s \<in> set letters" for s
  proof -
    have a: "CHR ''a'' \<in> set letters" and b: "CHR ''b'' \<in> set letters"
      by (simp_all add: letters_def)
    have "?G s (CHR ''a'') < ?G s (CHR ''b'')"
      unfolding G[OF s a] G[OF s b] using prev by simp
    then have pre: "\<forall>y \<in> set ''a''. ?G s y < ?G s (CHR ''b'')"
      by (simp del: spec_score.simps)
    have post: "\<forall>y \<in> set ''cdefghijklmnopqrstuvwxyz''. ?G s y \<le> ?G s (CHR ''b'')"
    proof
      fix y assume y: "y \<in> set ''cdefghijklmnopqrstuvwxyz''"
      then have "y \<in> set letters" "y \<noteq> CHR ''a''" "y \<noteq> CHR ''b''" by (auto simp: letters_def)
      then show "?G s y \<le> ?G s (CHR ''b'')"
        unfolding G[OF s b] G[OF s \<open>y \<in> set letters\<close>] using prev by simp
    qed
    from first_argmax_at[OF letters_split_b pre post]
    show "Max (?G s ` set letters) = (if s = CHR ''a'' then A1 else A2)"
      "first_argmax (?G s) letters = CHR ''b''"
      unfolding G[OF s b] by simp_all
  qed
  have second: "spec_score fl ?T ?E ''ab'' (Suc 0) s = (if s = CHR ''a'' then A1 else A2)"
    and path: "spec_path fl ?T ?E ''ab'' (Suc 0) s = [CHR ''b'', s]" if "s \<in> set letters" for s
  proof -
    have "spec_score fl ?T ?E ''ab'' (Suc 0) s = Max (?G s ` set letters)"
      by (simp only: spec_score.simps(2))
    then show "spec_score fl ?T ?E ''ab'' (Suc 0) s = (if s = CHR ''a'' then A1 else A2)"
      by (simp only: step(1)[OF that])
    have "spec_path fl ?T ?E ''ab'' (Suc 0) s
            = spec_path fl ?T ?E ''ab'' 0 (first_argmax (?G s) letters) @ [s]"
      by (simp only: spec_path.simps(2))
    then show "spec_path fl ?T ?E ''ab'' (Suc 0) s = [CHR ''b'', s]"
      by (simp only: step(2)[OF that] spec_path.simps(1) append.simps)
  qed
  have one: "length ''ab'' - 1 = Suc 0" by simp
  have H: "?H s = (if s = CHR ''a'' then ad A1 L else if s = CHR ''b'' then ad A2 lh else ad A2 L)"
    if "s \<in> set letters" for s
    unfolding one second[OF that] using letters_not_sentinel[OF that]
    by (simp add: example_probs ad_def L_def lh_def)
  have a: "CHR ''a'' \<in> set letters" and b: "CHR ''b'' \<in> set letters"
    by (simp_all add: letters_def)
  have decode: "viterbi fl ''ab'' ?T ?E = Inr [CHR ''b'', first_argmax ?H letters]"
  proof -
    have "first_argmax ?H letters \<in> set letters"
      by (rule first_argmax_in_set) (simp add: letters_def)
    from path[OF this] have "spec_decode fl ''ab'' ?T ?E = [CHR ''b'', first_argmax ?H letters]"
      unfolding spec_decode_def one by (simp only:)
    moreover have "viterbi fl ''ab'' ?T ?E = Inr (spec_decode fl ''ab'' ?T ?E)"
      unfolding example_transitions_def example_emissions_def
      by (rule viterbi_on_trained_tables[OF example_trained]) simp
    ultimately show ?thesis by simp
  qed
  show "viterbi fl ''ab'' ?T ?E = Inr ''bb''" if lt: "ad A1 L < ad A2 lh" and le: "ad A2 L \<le> ad A2 lh"
  proof -
    have "?H (CHR ''a'') < ?H (CHR ''b'')"
      unfolding H[OF a] H[OF b] using lt by simp
    then have pre: "\<forall>y \<in> set ''a''. ?H y < ?H (CHR ''b'')"
      by (simp del: spec_score.simps)
    have post: "\<forall>y \<in> set ''cdefghijklmnopqrstuvwxyz''. ?H y \<le> ?H (CHR ''b'')"
    proof
      fix y assume y: "y \<in> set ''cdefghijklmnopqrstuvwxyz''"
      then have "y \<in> set letters" "y \<noteq> CHR ''a''" "y \<noteq> CHR ''b''" by (auto simp: letters_def)
      then show "?H y \<le> ?H (CHR ''b'')"
        unfolding H[OF b] H[OF \<open>y \<in> set letters\<close>] using le by simp
    qed
    from first_argmax_at(2)[OF letters_split_b pre post] decode show ?thesis by simp
  qed
  show "viterbi fl ''ab'' ?T ?E = Inr ''ba''" if le1: "ad A2 lh \<le> ad A1 L" and le2: "ad A2 L \<le> ad A1 L"
  proof -
    have pre: "\<forall>y \<in> set []. ?H y < ?H (CHR ''a'')" by simp
    have post: "\<forall>y \<in> set ''bcdefghijklmnopqrstuvwxyz''. ?H y \<le> ?H (CHR ''a'')"
    proof
      fix y assume y: "y \<in> set ''bcdefghijklmnopqrstuvwxyz''"
      then have "y \<in> set letters" "y \<noteq> CHR ''a''" by (auto simp: letters_def)
      then show "?H y \<le> ?H (CHR ''a'')"
        unfolding H[OF a] H[OF \<open>y \<in> set letters\<close>] using le1 le2 by simp
    qed
    from first_argmax_at(2)[OF letters_split_a pre post] decode show ?thesis by simp
  qed
qed

lemma decode_example_doubles:
  "viterbi double_ops ''ab'' example_transitions example_emissions = Inr ''bb''"
  by (rule example_decode(1)) (simp_all add: double_ops_def)

lemma decode_example_exact:
  "viterbi exact_ops ''ab'' example_transitions example_emissions = Inr ''ba''"
proof -
  have L: "ln (1 / 1000000 :: real) < ln (1 / 2)" by (subst ln_less_cancel_iff) simp_all
  have lh: "ln (1 / 2 :: real) < 0" by (rule ln_less_zero) simp_all
  show ?thesis
    by (rule example_decode(2); simp only: exact_ops_def float_ops.select_convs ln_one)
       (use L lh in linarith)+
qed

section \<open>The snapper\<close>

lemma count_mismatches_eq:
  "set idxs \<subseteq> {..<min (length word) (length candidate)} \<Longrightarrow>
   count_mismatches word candidate idxs dst
     = Inr (dst + int (length [i \<leftarrow> idxs. word ! i \<noteq> candidate ! i]))"
  by (induction idxs arbitrary: dst) (simp_all add: getitem_def)

text \<open>The distance the loop computes is the distance of the specification, and no index is out of range.\<close>

lemma count_mismatches_distance:
  "count_mismatches word candidate [0..<min (length word) (length candidate)]
     \<bar>int (length word) - int (length candidate)\<bar> = Inr (spec_distance word candidate)"
  unfolding spec_distance_def by (rule count_mismatches_eq) auto

lemma scan_words_step:
  "scan_words candidate (word # ws) (best, best_score) =
     (if spec_distance word candidate < best_score
      then scan_words candidate ws (word, spec_distance word candidate)
      else scan_words candidate ws (best, best_score))"
  by (simp add: count_mismatches_distance Let_def)

lemma scan_words_keep:
  "\<forall>w \<in> set ws. best_score \<le> spec_distance w candidate \<Longrightarrow>
   scan_words candidate ws (best, best_score) = Inr (best, best_score)"
  by (induction ws) (simp_all add: scan_words_step del: scan_words.simps(2))

lemma scan_words_improve:
  "\<exists>w \<in> set ws. spec_distance w candidate < best_score \<Longrightarrow>
   scan_words candidate ws (best, best_score)
     = Inr (hd [w \<leftarrow> ws. spec_distance w candidate = Min ((\<lambda>v. spec_distance v candidate) ` set ws)],
            Min ((\<lambda>v. spec_distance v candidate) ` set ws))"
proof (induction ws arbitrary: best best_score)
  case Nil
  then show ?case by simp
next
  case (Cons x xs)
  let ?d = "\<lambda>v. spec_distance v candidate"
  show ?case
  proof (cases "\<exists>w \<in> set xs. ?d w < min (?d x) best_score")
    case True
    then obtain w where w: "w \<in> set xs" "?d w < ?d x" "?d w < best_score" by auto
    have ne: "?d ` set xs \<noteq> {}" using w by auto
    have "Min (?d ` set xs) \<le> ?d w" using w by (intro Min_le) auto
    then have lt: "Min (?d ` set xs) < ?d x" using w(2) by (rule le_less_trans)
    have "Min (insert (?d x) (?d ` set xs)) = min (?d x) (Min (?d ` set xs))"
      using ne by (intro Min_insert) auto
    then have M: "Min (?d ` set (x # xs)) = Min (?d ` set xs)"
      using lt by (simp add: min_def)
    have rec: "scan_words candidate (x # xs) (best, best_score)
      = Inr (hd [w \<leftarrow> xs. ?d w = Min (?d ` set xs)], Min (?d ` set xs))"
      using Cons.IH[of "?d x" x] Cons.IH[of best_score best] w
      by (auto simp: scan_words_step simp del: scan_words.simps(2))
    show ?thesis unfolding rec M using lt by simp
  next
    case False
    then have all: "\<forall>w \<in> set xs. min (?d x) best_score \<le> ?d w" by auto
    from Cons.prems False have lt: "?d x < best_score" by (auto simp: min_def split: if_splits)
    then have all': "\<forall>w \<in> set xs. ?d x \<le> ?d w" using all by auto
    have M: "Min (?d ` set (x # xs)) = ?d x"
      using all' by (intro Min_eqI) auto
    show ?thesis unfolding M using lt scan_words_keep[OF all', of x]
      by (simp add: scan_words_step del: scan_words.simps(2))
  qed
qed

lemma first_minimum_in_set:
  fixes f :: "'a \<Rightarrow> int"
  assumes "xs \<noteq> []"
  shows "hd [x \<leftarrow> xs. f x = Min (f ` set xs)] \<in> set xs"
proof -
  have "Min (f ` set xs) \<in> f ` set xs" using assms by (intro Min_in) auto
  then have "[x \<leftarrow> xs. f x = Min (f ` set xs)] \<noteq> []"
    by (auto simp: filter_empty_conv)
  then have "hd [x \<leftarrow> xs. f x = Min (f ` set xs)] \<in> set [x \<leftarrow> xs. f x = Min (f ` set xs)]"
    by (rule hd_in_set)
  then show ?thesis by simp
qed

text \<open>
  Below the sentinel the code is the specification's \<open>snap\<close>: whenever the candidate is a
  vocabulary word, or the vocabulary is empty, or some vocabulary word is at a distance
  below \<open>10^9\<close>.
\<close>

lemma closest_known_word_below_sentinel:
  assumes "candidate \<in> set vocabulary \<or> vocabulary = []
           \<or> (\<exists>w \<in> set vocabulary. spec_distance w candidate < 10 ^ 9)"
  shows "closest_known_word candidate vocabulary = Inr (spec_snap candidate vocabulary)"
proof (cases "candidate \<in> set vocabulary \<or> vocabulary = []")
  case True
  then show ?thesis by (auto simp: closest_known_word_def spec_snap_def)
next
  case False
  then have "\<exists>w \<in> set vocabulary. spec_distance w candidate < 10 ^ 9" using assms by blast
  from scan_words_improve[OF this, of candidate] False
  show ?thesis by (simp add: closest_known_word_def spec_snap_def)
qed

lemma closest_known_word_member_below_sentinel:
  assumes "vocabulary \<noteq> []"
    and "candidate \<in> set vocabulary \<or> (\<exists>w \<in> set vocabulary. spec_distance w candidate < 10 ^ 9)"
  shows "\<exists>w \<in> set vocabulary. closest_known_word candidate vocabulary = Inr w"
proof -
  have "closest_known_word candidate vocabulary = Inr (spec_snap candidate vocabulary)"
    using assms(2) by (intro closest_known_word_below_sentinel) blast
  moreover have "spec_snap candidate vocabulary \<in> set vocabulary"
    using assms(1) first_minimum_in_set[of vocabulary "\<lambda>v. spec_distance v candidate"]
    by (simp add: spec_snap_def)
  ultimately show ?thesis by blast
qed

text \<open>
  C4 (code disagrees with the claim). The empty candidate and a vocabulary whose only word
  has \<open>10^9\<close> letters: the distance is \<open>10^9\<close>, which is not strictly below the initial
  \<^verbatim>\<open>best_score\<close>, so the code returns the candidate, while the specification's \<open>snap\<close>
  returns the vocabulary word at minimum distance.
\<close>

theorem closest_known_word_sentinel_not_minimum:
  "closest_known_word [] [replicate 1000000000 (CHR ''a'')] = Inr []
   \<and> spec_snap [] [replicate 1000000000 (CHR ''a'')] = replicate 1000000000 (CHR ''a'')"
  by (simp add: closest_known_word_def spec_snap_def)

text \<open>
  C7 (code disagrees with the claim). The candidate \<open>b\<close> and a non-empty vocabulary whose
  only word has \<open>10^9 + 1\<close> letters: the code returns the candidate, which is not a member
  of the vocabulary.
\<close>

theorem closest_known_word_sentinel_not_member:
  "closest_known_word ''b'' [replicate 1000000001 (CHR ''a'')] = Inr ''b''
   \<and> ''b'' \<notin> set [replicate 1000000001 (CHR ''a'')]
   \<and> [replicate 1000000001 (CHR ''a'')] \<noteq> []"
proof -
  have ne: "''b'' \<noteq> replicate 1000000001 (CHR ''a'')"
  proof
    assume "''b'' = replicate 1000000001 (CHR ''a'')"
    then have "length ''b'' = length (replicate 1000000001 (CHR ''a''))" by (rule arg_cong)
    then show False by simp
  qed
  then show ?thesis by (simp add: closest_known_word_def getitem_def)
qed

text \<open>
  C8. With an empty vocabulary \<open>closest_known_word\<close> returns the candidate unchanged; the
  result is \<open>Inr\<close>, so nothing is raised.
\<close>

theorem closest_known_word_empty_vocabulary:
  "closest_known_word candidate [] = Inr candidate"
  by (simp add: closest_known_word_def)

text \<open>
  C10. For a candidate that is not in a non-empty vocabulary, the scan starts from
  \<open>(candidate, 10^9)\<close> and replaces the pair only on a strictly smaller distance. It
  returns without raising; the result is a vocabulary word exactly when some vocabulary
  word has a distance strictly below \<open>10^9\<close>, and it is the candidate (which is not in the
  vocabulary) when every distance is at least \<open>10^9\<close>.
\<close>

theorem snap_sentinel_threshold:
  assumes "candidate \<notin> set dictionary_words" and "dictionary_words \<noteq> []"
  shows "\<exists>best. closest_known_word candidate dictionary_words = Inr best
           \<and> (best \<in> set dictionary_words
                \<longleftrightarrow> (\<exists>w \<in> set dictionary_words. spec_distance w candidate < 10 ^ 9))
           \<and> ((\<forall>w \<in> set dictionary_words. 10 ^ 9 \<le> spec_distance w candidate)
                \<longrightarrow> best = candidate)"
proof (cases "\<exists>w \<in> set dictionary_words. spec_distance w candidate < 10 ^ 9")
  case True
  let ?d = "\<lambda>v. spec_distance v candidate"
  let ?b = "hd [w \<leftarrow> dictionary_words. ?d w = Min (?d ` set dictionary_words)]"
  have "closest_known_word candidate dictionary_words = Inr ?b"
    using scan_words_improve[OF True, of candidate] assms(1)
    by (simp add: closest_known_word_def)
  moreover have "?b \<in> set dictionary_words"
    using assms(2) by (rule first_minimum_in_set)
  ultimately show ?thesis using True by fastforce
next
  case False
  then have all: "\<forall>w \<in> set dictionary_words. 10 ^ 9 \<le> spec_distance w candidate"
    by (simp add: not_less)
  have "closest_known_word candidate dictionary_words = Inr candidate"
    using scan_words_keep[OF all, of candidate] assms(1)
    by (simp add: closest_known_word_def)
  then show ?thesis using False assms(1) by simp
qed

theorem snap_sentinel_threshold_witness:
  "''cet'' \<notin> set [''cat'', ''cot'', ''cap''] \<and> [''cat'', ''cot'', ''cap''] \<noteq> []
   \<and> (\<exists>best. closest_known_word ''cet'' [''cat'', ''cot'', ''cap''] = Inr best
        \<and> best \<in> set [''cat'', ''cot'', ''cap''])"
proof -
  have h1: "''cet'' \<notin> set [''cat'', ''cot'', ''cap'']" by simp
  have h2: "[''cat'', ''cot'', ''cap''] \<noteq> []" by simp
  have near: "spec_distance ''cat'' ''cet'' < 10 ^ 9"
    by (simp add: spec_distance_def upt_conv_Cons)
  from snap_sentinel_threshold[OF h1 h2] near h1 h2 show ?thesis
    by (meson list.set_intros(1))
qed

end
